theory Spec2Isabelle
  imports Complex_Main
begin

section \<open>Floating-point values as numpy sees them\<close>

text \<open>
  The program computes with numpy's float64 arrays and Python floats. A value is a
  finite number, one of the two infinities, or NaN. Arithmetic on finite values is
  modelled exactly (no rounding, no overflow; the rounding of the sums and quotients that
  produce the mixing weights has a section of its own); the special values follow IEEE 754 as
  numpy applies it: a division by zero does not raise, it yields an infinity or NaN,
  and every comparison with NaN is false. The sign of zero is not modelled: a zero
  divisor counts as \<open>+0\<close>.
\<close>

datatype npfloat = Fin real | PInf | NInf | NaN

instantiation npfloat :: "{zero, plus, uminus, minus, times, inverse, ord}"
begin

definition zero_npfloat :: npfloat where
  "0 = Fin 0"

fun plus_npfloat :: "npfloat \<Rightarrow> npfloat \<Rightarrow> npfloat" where
  "Fin a + Fin b = Fin (a + b)"
| "NaN + _ = NaN"
| "_ + NaN = NaN"
| "PInf + NInf = NaN"
| "NInf + PInf = NaN"
| "PInf + _ = PInf"
| "_ + PInf = PInf"
| "NInf + _ = NInf"
| "_ + NInf = NInf"

fun uminus_npfloat :: "npfloat \<Rightarrow> npfloat" where
  "- Fin a = Fin (- a)"
| "- PInf = NInf"
| "- NInf = PInf"
| "- NaN = NaN"

definition minus_npfloat :: "npfloat \<Rightarrow> npfloat \<Rightarrow> npfloat" where
  "(a::npfloat) - b = a + (- b)"

fun times_npfloat :: "npfloat \<Rightarrow> npfloat \<Rightarrow> npfloat" where
  "Fin a * Fin b = Fin (a * b)"
| "NaN * _ = NaN"
| "_ * NaN = NaN"
| "PInf * Fin b = (if 0 < b then PInf else if b < 0 then NInf else NaN)"
| "NInf * Fin b = (if 0 < b then NInf else if b < 0 then PInf else NaN)"
| "Fin a * PInf = (if 0 < a then PInf else if a < 0 then NInf else NaN)"
| "Fin a * NInf = (if 0 < a then NInf else if a < 0 then PInf else NaN)"
| "PInf * PInf = PInf"
| "PInf * NInf = NInf"
| "NInf * PInf = NInf"
| "NInf * NInf = PInf"

fun divide_npfloat :: "npfloat \<Rightarrow> npfloat \<Rightarrow> npfloat" where
  "Fin a div Fin b =
     (if b \<noteq> 0 then Fin (a / b)
      else if 0 < a then PInf else if a < 0 then NInf else NaN)"
| "NaN div _ = NaN"
| "_ div NaN = NaN"
| "Fin a div PInf = Fin 0"
| "Fin a div NInf = Fin 0"
| "PInf div Fin b = (if 0 \<le> b then PInf else NInf)"
| "NInf div Fin b = (if 0 \<le> b then NInf else PInf)"
| "PInf div PInf = NaN"
| "PInf div NInf = NaN"
| "NInf div PInf = NaN"
| "NInf div NInf = NaN"

definition inverse_npfloat :: "npfloat \<Rightarrow> npfloat" where
  "inverse (a::npfloat) = Fin 1 div a"

fun less_npfloat :: "npfloat \<Rightarrow> npfloat \<Rightarrow> bool" where
  "Fin a < Fin b \<longleftrightarrow> a < b"
| "NaN < _ \<longleftrightarrow> False"
| "_ < NaN \<longleftrightarrow> False"
| "PInf < _ \<longleftrightarrow> False"
| "_ < NInf \<longleftrightarrow> False"
| "NInf < _ \<longleftrightarrow> True"
| "_ < PInf \<longleftrightarrow> True"

fun less_eq_npfloat :: "npfloat \<Rightarrow> npfloat \<Rightarrow> bool" where
  "Fin a \<le> Fin b \<longleftrightarrow> a \<le> b"
| "NaN \<le> _ \<longleftrightarrow> False"
| "_ \<le> NaN \<longleftrightarrow> False"
| "_ \<le> PInf \<longleftrightarrow> True"
| "NInf \<le> _ \<longleftrightarrow> True"
| "PInf \<le> _ \<longleftrightarrow> False"
| "_ \<le> NInf \<longleftrightarrow> False"

instance ..

end

instance npfloat :: comm_monoid_add
proof
  fix x y z :: npfloat
  show "x + y = y + x"
    by (cases x; cases y; simp)
  show "0 + x = x"
    unfolding zero_npfloat_def by (cases x; simp)
  show "x + y + z = x + (y + z)"
    by (cases x; cases y; cases z; simp)
qed

text \<open>\<open>np.log\<close>: the logarithm of zero is \<open>-inf\<close>, of a negative number NaN.\<close>

fun np_log :: "npfloat \<Rightarrow> npfloat" where
  "np_log (Fin a) = (if 0 < a then Fin (ln a) else if a = 0 then NInf else NaN)"
| "np_log PInf = PInf"
| "np_log NInf = NaN"
| "np_log NaN = NaN"

section \<open>Arrays, errors and the library density\<close>

text \<open>
  A one-dimensional array is the list of its entries, a two-dimensional array the list of
  its rows. The dataset \<open>data\<close> is an \<open>N \<times> D\<close> array, \<open>mu\<close> is \<open>K \<times> D\<close>, \<open>cov\<close> is a list of
  \<open>K\<close> arrays \<open>D \<times> D\<close>, the mixing weights \<open>pis\<close> (the source's \<open>pi\<close>) have \<open>K\<close>
  entries and the responsibilities \<open>r\<close> form an \<open>N \<times> K\<close> array. Shape errors of numpy on
  arrays that do not have these shapes are not modelled.
\<close>

type_synonym vec = "npfloat list"
type_synonym mat = "npfloat list list"

datatype error = ZeroDivisionError | ValueError | IndexError | AxisError | LinAlgError

text \<open>
  \<open>scipy.stats.multivariate_normal(mean, cov).pdf(data)\<close> is library code outside the
  repository. The operations take it as the parameter \<open>pdf\<close>: given a mean, a covariance
  and the dataset it raises (a covariance that is not positive definite) or returns one
  density per data point. For a dataset of a single point scipy hands that one density
  back as a scalar and not as an array of one entry; the parameter returns the list of
  one density all the same, and the callers below account for the scalar.
\<close>

type_synonym density = "vec \<Rightarrow> mat \<Rightarrow> mat \<Rightarrow> error + vec"

text \<open>\<open>xs[i]\<close> on a Python list or an array raises IndexError out of range.\<close>

definition item :: "'a list \<Rightarrow> nat \<Rightarrow> error + 'a" where
  "item xs i = (if i < length xs then Inr (xs ! i) else Inl IndexError)"

text \<open>A list comprehension whose element expression may raise: the first error wins.\<close>

fun comprehension :: "('a \<Rightarrow> error + 'b) \<Rightarrow> 'a list \<Rightarrow> error + 'b list" where
  "comprehension f [] = Inr []"
| "comprehension f (x # xs) =
     (case f x of
        Inl e \<Rightarrow> Inl e
      | Inr y \<Rightarrow> (case comprehension f xs of Inl e \<Rightarrow> Inl e | Inr ys \<Rightarrow> Inr (y # ys)))"

text \<open>\<open>a[:, i]\<close>, the number of columns of a non-empty array, and \<open>np.eye(n)\<close>.\<close>

definition column :: "mat \<Rightarrow> nat \<Rightarrow> vec" where
  "column a i = map (\<lambda>row. row ! i) a"

definition ncols :: "mat \<Rightarrow> nat" where
  "ncols a = (case a of [] \<Rightarrow> 0 | row # _ \<Rightarrow> length row)"

definition eye :: "nat \<Rightarrow> mat" where
  "eye n = map (\<lambda>i. map (\<lambda>j. if i = j then Fin 1 else Fin 0) [0..<n]) [0..<n]"

text \<open>\<open>v.dot(a)\<close> for a vector \<open>v\<close> of \<open>N\<close> entries and an \<open>N \<times> D\<close> array \<open>a\<close>.\<close>

definition dot_vec_mat :: "vec \<Rightarrow> mat \<Rightarrow> vec" where
  "dot_vec_mat v a = map (\<lambda>d. sum_list (map2 (*) v (column a d))) [0..<ncols a]"

text \<open>\<open>np.dot(a.T, b)\<close> for two \<open>N \<times> D\<close> arrays.\<close>

definition dot_T :: "mat \<Rightarrow> mat \<Rightarrow> mat" where
  "dot_T a b =
     map (\<lambda>i. map (\<lambda>j. sum_list (map2 (*) (column a i) (column b j))) [0..<ncols b])
       [0..<ncols a]"

section \<open>The EM engine\<close>

text \<open>
  \<open>initialize_parameters(num_components, seed)\<close>. \<open>1 / num_components\<close> is Python's
  division and raises for zero; \<open>np.random.seed\<close> accepts a seed from \<open>0\<close> to \<open>2^32 - 1\<close>;
  \<open>np.random.rand\<close> raises for a negative dimension. The generator is the parameter
  \<open>rand\<close>: \<open>rand seed n m\<close> is the \<open>n \<times> m\<close> array drawn after seeding with \<open>seed\<close>. The
  weight \<open>1 / num_components\<close> is the exact quotient here; its float64 rounding is the
  subject of the section on rounding.
\<close>

definition initialize_parameters ::
  "(int \<Rightarrow> nat \<Rightarrow> nat \<Rightarrow> mat) \<Rightarrow> int \<Rightarrow> int \<Rightarrow> error + (vec \<times> mat \<times> mat list)" where
  "initialize_parameters rand num_components seed =
     (if num_components = 0 then Inl ZeroDivisionError
      else
        let pis = replicate (nat num_components) (Fin (1 / real_of_int num_components)) in
        if seed < 0 \<or> 2 ^ 32 \<le> seed then Inl ValueError
        else if num_components < 0 then Inl ValueError
        else
          let mus = map (map (\<lambda>u. u * Fin 4 - Fin 2)) (rand seed (nat num_components) 2);
              sigmas = map (\<lambda>_. eye 2) [0..<nat num_components]
          in Inr (pis, mus, sigmas))"

text \<open>
  The comprehension shared by the E-step and the scorer:
  \<open>[pi[i] * multivariate_normal(mu[i], cov[i]).pdf(data) for i in range(len(pi))]\<close>.
\<close>

definition weighted_pdfs :: "density \<Rightarrow> mat \<Rightarrow> mat \<Rightarrow> mat list \<Rightarrow> vec \<Rightarrow> error + mat" where
  "weighted_pdfs pdf data mu cov pis =
     comprehension
       (\<lambda>i. case item mu i of
              Inl e \<Rightarrow> Inl e
            | Inr m \<Rightarrow>
                (case item cov i of
                   Inl e \<Rightarrow> Inl e
                 | Inr c \<Rightarrow>
                     (case pdf m c data of
                        Inl e \<Rightarrow> Inl e
                      | Inr ds \<Rightarrow> Inr (map (\<lambda>d. pis ! i * d) ds))))
       [0..<length pis]"

text \<open>
  \<open>expectation_step(data, mu, cov, pi)\<close>. With no component, and with a single data
  point (the library then returns scalars), the array built from the comprehension is
  one-dimensional and \<open>r.sum(axis=1)\<close> raises. The rows are divided by their sums with no
  test of the divisor.
\<close>

definition expectation_step ::
  "density \<Rightarrow> mat \<Rightarrow> mat \<Rightarrow> mat list \<Rightarrow> vec \<Rightarrow> error + (mat \<times> vec \<times> vec)" where
  "expectation_step pdf data mu cov pis =
     (case weighted_pdfs pdf data mu cov pis of
        Inl e \<Rightarrow> Inl e
      | Inr ws \<Rightarrow>
          if ws = [] \<or> length (hd ws) = 1 then Inl AxisError
          else
            let w = map (\<lambda>n. column ws n) [0..<length (hd ws)];
                r = map (\<lambda>row. map (\<lambda>x. x / sum_list row) row) w;
                m_c = map (\<lambda>i. sum_list (column r i)) [0..<length ws];
                pis' = map (\<lambda>m. m / sum_list m_c) m_c
            in Inr (r, m_c, pis'))"

text \<open>\<open>maximization_step(data, r, m_c)\<close>: the covariance is built from the new \<open>mu\<close>.\<close>

definition maximization_step :: "mat \<Rightarrow> mat \<Rightarrow> vec \<Rightarrow> mat \<times> mat list" where
  "maximization_step data r m_c =
     (let mu = map (\<lambda>i. map (\<lambda>x. x / m_c ! i) (dot_vec_mat (column r i) data))
                 [0..<length m_c];
          cov = map (\<lambda>i.
                  let centred = map (\<lambda>x. map2 (-) x (mu ! i)) data;
                      scaled = map2 (\<lambda>row ri. map (\<lambda>x. x * ri) row) centred (column r i)
                  in map (map (\<lambda>x. x / m_c ! i)) (dot_T centred scaled))
                  [0..<length m_c]
      in (mu, cov))"

text \<open>
  \<open>compute_aic(data, mu, cov, pi)\<close>. \<open>mu[0]\<close> raises when there is no component; the sum
  over an empty list of components is the scalar zero. With a single data point the
  library's scalars are added, logged and summed to the same value as the arrays of one
  entry would be.
\<close>

definition compute_aic :: "density \<Rightarrow> mat \<Rightarrow> mat \<Rightarrow> mat list \<Rightarrow> vec \<Rightarrow> error + npfloat" where
  "compute_aic pdf data mu cov pis =
     (case mu of
        [] \<Rightarrow> Inl IndexError
      | mu0 # _ \<Rightarrow>
          let k = real (length mu) *
                    (real (length mu0) + real (length mu0) * (real (length mu0) + 1) / 2 + 1)
          in
          (case weighted_pdfs pdf data mu cov pis of
             Inl e \<Rightarrow> Inl e
           | Inr ws \<Rightarrow>
               let likelihood =
                     (if ws = [] then np_log (Fin 0)
                      else sum_list
                             (map np_log
                                (map (\<lambda>n. sum_list (column ws n)) [0..<length (hd ws)])));
                   aic = Fin 2 * Fin k - Fin 2 * likelihood
               in Inr aic))"

text \<open>
  \<open>run_em_algorithm\<close>. The state holds the local variables of the function (\<open>st_pi\<close>,
  \<open>st_mu\<close> and \<open>st_cov\<close> are the source's \<open>pi\<close>, \<open>mu\<close> and \<open>cov\<close>); \<open>printed\<close> is what it
  has printed and plotted so far, and \<open>executed\<close> is a ghost counter of the loop bodies
  that ran (the source has no such variable). A report is the \<open>print\<close> of an iteration
  together with its call of \<open>plot_gaussian_mixtures\<close>, which draws and returns nothing.
  The threshold is passed explicitly; the source's default for it is \<open>0.01\<close>.
\<close>

datatype event =
    Iteration_report nat npfloat vec mat "mat list"
  | Terminating_early npfloat
  | Did_not_converge int

record em_state =
  st_pi :: vec
  st_mu :: mat
  st_cov :: "mat list"
  previous_aic :: npfloat
  no_improve_count :: nat
  aic_list :: "npfloat list"
  printed :: "event list"
  executed :: nat

datatype flow = Continue (state_of: em_state) | is_Return: Return (state_of: em_state)

definition initial_state :: "vec \<Rightarrow> mat \<Rightarrow> mat list \<Rightarrow> em_state" where
  "initial_state pi0 mu0 cov0 =
     \<lparr>st_pi = pi0, st_mu = mu0, st_cov = cov0, previous_aic = PInf, no_improve_count = 0,
      aic_list = [], printed = [], executed = 0\<rparr>"

text \<open>The body of the \<open>for\<close> loop at index \<open>it\<close>.\<close>

definition em_iteration ::
  "density \<Rightarrow> mat \<Rightarrow> int \<Rightarrow> npfloat \<Rightarrow> nat \<Rightarrow> em_state \<Rightarrow> error + flow" where
  "em_iteration pdf data max_iter threshold it s =
     (case expectation_step pdf data (st_mu s) (st_cov s) (st_pi s) of
        Inl e \<Rightarrow> Inl e
      | Inr (r, m_c, pis') \<Rightarrow>
          (case maximization_step data r m_c of
             (mu', cov') \<Rightarrow>
               (case compute_aic pdf data mu' cov' pis' of
                  Inl e \<Rightarrow> Inl e
                | Inr current_aic \<Rightarrow>
                    let s1 = s\<lparr>st_pi := pis', st_mu := mu', st_cov := cov',
                               aic_list := aic_list s @ [current_aic],
                               executed := executed s + 1,
                               printed := printed s @
                                 (if it mod 10 = 0 \<or> int it = max_iter - 1
                                  then [Iteration_report it current_aic pis' mu' cov']
                                  else [])\<rparr>
                    in
                    if previous_aic s - current_aic < threshold then
                      let s2 = s1\<lparr>no_improve_count := no_improve_count s + 1\<rparr> in
                      if 3 \<le> no_improve_count s2
                      then Inr (Return (s2\<lparr>printed := printed s2 @ [Terminating_early threshold]\<rparr>))
                      else Inr (Continue (s2\<lparr>previous_aic := current_aic\<rparr>))
                    else
                      Inr (Continue (s1\<lparr>no_improve_count := 0, previous_aic := current_aic\<rparr>)))))"

text \<open>The loop over \<open>range(max_iter)\<close>, and the statements after it.\<close>

fun em_loop ::
  "density \<Rightarrow> mat \<Rightarrow> int \<Rightarrow> npfloat \<Rightarrow> nat list \<Rightarrow> em_state \<Rightarrow> error + em_state" where
  "em_loop pdf data max_iter threshold [] s =
     Inr (s\<lparr>printed := printed s @ [Did_not_converge max_iter]\<rparr>)"
| "em_loop pdf data max_iter threshold (it # its) s =
     (case em_iteration pdf data max_iter threshold it s of
        Inl e \<Rightarrow> Inl e
      | Inr (Return s') \<Rightarrow> Inr s'
      | Inr (Continue s') \<Rightarrow> em_loop pdf data max_iter threshold its s')"

text \<open>
  \<open>em_run\<close> is the whole call with the final local variables; \<open>run_em_algorithm\<close> is
  what the call returns, \<open>aic_list\<close> and nothing else.
\<close>

definition em_run ::
  "density \<Rightarrow> mat \<Rightarrow> int \<Rightarrow> vec \<Rightarrow> mat \<Rightarrow> mat list \<Rightarrow> npfloat \<Rightarrow> error + em_state" where
  "em_run pdf data max_iter pi0 mu0 cov0 threshold =
     em_loop pdf data max_iter threshold [0..<nat max_iter] (initial_state pi0 mu0 cov0)"

definition run_em_algorithm ::
  "density \<Rightarrow> mat \<Rightarrow> int \<Rightarrow> vec \<Rightarrow> mat \<Rightarrow> mat list \<Rightarrow> npfloat \<Rightarrow> error + npfloat list" where
  "run_em_algorithm pdf data max_iter pi0 mu0 cov0 threshold =
     (case em_run pdf data max_iter pi0 mu0 cov0 threshold of
        Inl e \<Rightarrow> Inl e
      | Inr s \<Rightarrow> Inr (aic_list s))"

section \<open>The library density in two dimensions\<close>

text \<open>
  For concrete runs the density parameter is instantiated with \<open>mvn_pdf2\<close>, the
  bivariate case of scipy's \<open>multivariate_normal(mean, cov).pdf\<close> (two is the dimension
  the initializer builds; every other dimension is rejected here). scipy reads the lower
  triangle of \<open>cov\<close>, raises ValueError when the matrix has a negative eigenvalue or a
  non-finite entry and LinAlgError when it is singular, and returns
  \<open>exp(-(2 log(2 pi) + log(det) + maha) / 2)\<close> for each point. scipy's test of the
  eigenvalues has a tolerance (an eigenvalue below about \<open>2.2e-10\<close> times the largest
  counts as zero); the model tests exact positive definiteness. Its \<open>exp\<close> is the one place
  where the range of float64 is modelled: the smallest positive float64 is \<open>2^-1074\<close>, so
  a correctly rounded exponential is zero when its argument is at most \<open>-1075 log 2\<close>,
  about \<open>-745.13\<close>. The density at a non-finite point or under a non-finite mean is not
  modelled; NaN stands for it.
\<close>

definition np_exp :: "real \<Rightarrow> real" where
  "np_exp x = (if x \<le> - 1075 * ln 2 then 0 else exp x)"

fun fin2 :: "vec \<Rightarrow> (real \<times> real) option" where
  "fin2 [Fin a, Fin b] = Some (a, b)"
| "fin2 _ = None"

definition mvn_pdf2 :: density where
  "mvn_pdf2 mean c data =
     (case map fin2 c of
        [Some (a, _), Some (b, d)] \<Rightarrow>
          let det = a * d - b * b in
          if length mean \<noteq> 2 then Inl ValueError
          else if 0 < a \<and> 0 < det then
            Inr (map (\<lambda>x. case (fin2 mean, fin2 x) of
                             (Some (m1, m2), Some (x1, x2)) \<Rightarrow>
                               let u = x1 - m1; v = x2 - m2;
                                   maha = (d * u * u - 2 * b * u * v + a * v * v) / det
                               in Fin (np_exp (- (2 * ln (2 * pi) + ln det + maha) / 2))
                           | _ \<Rightarrow> NaN)
                   data)
          else if 0 \<le> a \<and> 0 \<le> d \<and> det = 0 then Inl LinAlgError
          else Inl ValueError
      | _ \<Rightarrow> Inl ValueError)"

text \<open>
  A family of datasets for concrete runs: the corners of a square of side two whose
  lower left corner is \<open>(t, 0)\<close>. Its mean is \<open>(t + 1, 1)\<close> and its covariance the identity,
  so one component with these parameters is a fixed point of the EM step.
\<close>

definition square_data :: "real \<Rightarrow> mat" where
  "square_data t = [[Fin t, Fin 0], [Fin (t + 2), Fin 0], [Fin t, Fin 2], [Fin (t + 2), Fin 2]]"

definition square_mean :: "real \<Rightarrow> mat" where
  "square_mean t = [[Fin (t + 1), Fin 1]]"

text \<open>
  The AIC of that fixed point, \<open>2 * 6 - 2 * (4 * (- log(2 pi) - 1))\<close>: six free parameters
  and four points of log-density \<open>- log(2 pi) - 1\<close>.
\<close>

definition square_aic :: real where
  "square_aic = 20 + 8 * ln (2 * pi)"

section \<open>Rounding in float64\<close>

text \<open>
  The sums and quotients behind the mixing weights, with the rounding of float64 and no
  overflow. A float64 has 53 significant bits, so a rounded result in the normal range
  differs from the exact one by at most the fraction \<open>2^-53\<close> of it; the smallest
  positive float64 is \<open>2^-1074\<close>, so below the normal range the difference is at most
  \<open>2^-1075\<close>.
\<close>

definition unit_roundoff :: real where
  "unit_roundoff = 1 / 2 ^ 53"

definition tiny :: real where
  "tiny = 1 / 2 ^ 1075"

text \<open>
  \<open>rounds x y\<close>: \<open>y\<close> may be the float64 result of an operation whose exact result is
  \<open>x\<close>. Rounding keeps the sign and keeps zero. \<open>rounds_add\<close> is the case of an
  addition, which is exact below the normal range.
\<close>

definition rounds :: "real \<Rightarrow> real \<Rightarrow> bool" where
  "rounds x y \<longleftrightarrow>
     \<bar>y - x\<bar> \<le> max (unit_roundoff * \<bar>x\<bar>) tiny \<and> (0 \<le> x \<longrightarrow> 0 \<le> y) \<and> (x \<le> 0 \<longrightarrow> y \<le> 0)"

definition rounds_add :: "real \<Rightarrow> real \<Rightarrow> bool" where
  "rounds_add x y \<longleftrightarrow> \<bar>y - x\<bar> \<le> unit_roundoff * \<bar>x\<bar>"

text \<open>
  \<open>f64_sum xs s\<close>: \<open>s\<close> may be the result of \<open>xs.sum()\<close>. numpy adds the entries of a
  non-empty array two at a time, in an order and a grouping of its own choice (in blocks,
  pairwise); every addition is rounded.
\<close>

inductive f64_sum :: "real list \<Rightarrow> real \<Rightarrow> bool" where
    one: "f64_sum [x] x"
  | add: "f64_sum xs a \<Longrightarrow> f64_sum ys b \<Longrightarrow> rounds_add (a + b) s \<Longrightarrow> f64_sum (xs @ ys) s"
  | reorder: "f64_sum (xs @ x # ys) s \<Longrightarrow> f64_sum (x # xs @ ys) s"

text \<open>\<open>m / m.sum()\<close>: one sum, then one rounded division for each entry.\<close>

definition f64_divide_by_sum :: "real list \<Rightarrow> real list \<Rightarrow> bool" where
  "f64_divide_by_sum m ps \<longleftrightarrow>
     (\<exists>S. f64_sum m S \<and> list_all2 (\<lambda>x p. rounds (x / S) p) m ps)"

text \<open>
  The three arithmetic lines of \<open>expectation_step\<close> on an \<open>N \<times> K\<close> array \<open>w\<close> of finite
  weights: \<open>r = w / w.sum(axis=1, keepdims=True)\<close>, \<open>m_c = r.sum(axis=0)\<close> and
  \<open>pi = m_c / m_c.sum()\<close>.
\<close>

definition f64_expectation_step ::
  "real list list \<Rightarrow> real list list \<Rightarrow> real list \<Rightarrow> real list \<Rightarrow> bool" where
  "f64_expectation_step w r m_c ps \<longleftrightarrow>
     list_all (\<lambda>row. length row = length m_c) w
   \<and> list_all2 f64_divide_by_sum w r
   \<and> list_all2 (\<lambda>k m. f64_sum (map (\<lambda>row. row ! k) r) m) [0..<length m_c] m_c
   \<and> f64_divide_by_sum m_c ps"

text \<open>\<open>[1 / num_components] * num_components\<close>: one rounded division, repeated.\<close>

definition f64_uniform_weights :: "nat \<Rightarrow> real list \<Rightarrow> bool" where
  "f64_uniform_weights K ps \<longleftrightarrow> (\<exists>p. rounds (1 / real K) p \<and> ps = replicate K p)"

section \<open>Predicates and notions the statements use\<close>

text \<open>A value is finite when it is neither an infinity nor NaN.\<close>

fun is_fin :: "npfloat \<Rightarrow> bool" where
  "is_fin (Fin _) = True"
| "is_fin _ = False"

text \<open>
  \<open>reachable pdf data max_iter threshold s0 it s\<close>: the loop started in \<open>s0\<close> stands at
  the head of its body with index \<open>it\<close> and local variables \<open>s\<close>, every earlier body
  having run to its end without an early return.
\<close>

inductive reachable ::
  "density \<Rightarrow> mat \<Rightarrow> int \<Rightarrow> npfloat \<Rightarrow> em_state \<Rightarrow> nat \<Rightarrow> em_state \<Rightarrow> bool"
  for pdf data max_iter threshold s0 where
    start: "reachable pdf data max_iter threshold s0 0 s0"
  | step: "reachable pdf data max_iter threshold s0 it s \<Longrightarrow>
           em_iteration pdf data max_iter threshold it s = Inr (Continue s') \<Longrightarrow>
           reachable pdf data max_iter threshold s0 (Suc it) s'"

text \<open>
  The mixture parameters held by the local variables when the call returns. The source
  does not return them; the definition exists to say so.
\<close>

definition final_parameters ::
  "density \<Rightarrow> mat \<Rightarrow> int \<Rightarrow> vec \<Rightarrow> mat \<Rightarrow> mat list \<Rightarrow> npfloat \<Rightarrow> error + (vec \<times> mat \<times> mat list)"
  where
  "final_parameters pdf data max_iter pi0 mu0 cov0 threshold =
     (case em_run pdf data max_iter pi0 mu0 cov0 threshold of
        Inl e \<Rightarrow> Inl e
      | Inr s \<Rightarrow> Inr (st_pi s, st_mu s, st_cov s))"

text \<open>The invariant of the loop at the head of the body with index \<open>i\<close>.\<close>

definition loop_inv :: "nat \<Rightarrow> em_state \<Rightarrow> bool" where
  "loop_inv i s \<longleftrightarrow>
     length (aic_list s) = i \<and> executed s = i \<and> (i = 0 \<longrightarrow> previous_aic s = PInf)
     \<and> no_improve_count s + 1 \<le> max i 1 \<and> no_improve_count s \<le> 2"

text \<open>The density of each corner of the square under the fixed point.\<close>

definition square_density :: real where
  "square_density = exp (- (2 * ln (2 * pi) + 2) / 2)"

text \<open>A dataset with a point a hundred units from the origin in each coordinate.\<close>

definition far_data :: mat where
  "far_data = [[Fin 0, Fin 0], [Fin 100, Fin 100]]"

section \<open>Auxiliary facts\<close>

subsection \<open>Sums of finite values\<close>

lemma all_fin_map: "(\<forall>x\<in>set xs. is_fin x) \<Longrightarrow> \<exists>ys. xs = map Fin ys"
proof (induction xs)
  case Nil
  then show ?case by simp
next
  case (Cons x xs)
  then obtain ys where ys: "xs = map Fin ys" by auto
  from Cons.prems obtain y where "x = Fin y" by (cases x) auto
  with ys have "x # xs = map Fin (y # ys)" by simp
  then show ?case by (rule exI[of _ "y # ys"])
qed

lemma sum_list_Fin: "sum_list (map Fin ys) = Fin (sum_list ys)"
  by (induction ys) (simp_all add: zero_npfloat_def)

lemma sum_list_divide_real: "sum_list (map (\<lambda>y. y / (s::real)) ys) = sum_list ys / s"
  by (induction ys) (simp_all add: add_divide_distrib)

lemma normalized_sum:
  assumes "\<forall>x\<in>set row. is_fin x" and "sum_list row \<noteq> Fin 0"
  shows "sum_list (map (\<lambda>x. x / sum_list row) row) = Fin 1"
    and "\<forall>x\<in>set (map (\<lambda>x. x / sum_list row) row). is_fin x"
proof -
  from assms(1) obtain ys where ys: "row = map Fin ys" using all_fin_map by blast
  with assms(2) have nz: "sum_list ys \<noteq> 0" by (simp add: sum_list_Fin)
  have eq: "map (\<lambda>x. x / sum_list row) row = map Fin (map (\<lambda>y. y / sum_list ys) ys)"
    using nz by (simp add: ys sum_list_Fin)
  show "sum_list (map (\<lambda>x. x / sum_list row) row) = Fin 1"
    unfolding eq sum_list_Fin sum_list_divide_real using nz by simp
  show "\<forall>x\<in>set (map (\<lambda>x. x / sum_list row) row). is_fin x"
    unfolding eq by simp
qed

lemma sum_list_nth_upt: "length x = K \<Longrightarrow> sum_list (map ((!) x) [0..<K]) = sum_list (x::npfloat list)"
  using map_nth[of x] by auto

lemma column_sums_swap:
  "\<forall>row\<in>set r. length row = K \<Longrightarrow>
   sum_list (map (\<lambda>i. sum_list (column r i)) [0..<K]) = sum_list (map sum_list (r::mat))"
proof (induction r)
  case Nil
  then show ?case by (simp add: column_def)
next
  case (Cons x r)
  have "sum_list (map (\<lambda>i. sum_list (column (x # r) i)) [0..<K])
        = sum_list (map (\<lambda>i. x ! i + sum_list (column r i)) [0..<K])"
    by (simp add: column_def)
  also have "\<dots> = sum_list (map ((!) x) [0..<K]) + sum_list (map (\<lambda>i. sum_list (column r i)) [0..<K])"
    by (simp add: sum_list_addf)
  also have "\<dots> = sum_list x + sum_list (map sum_list r)"
    using Cons by (simp add: sum_list_nth_upt)
  finally show ?case by simp
qed

lemma sum_list_const_one: "sum_list (map (\<lambda>_. Fin 1) xs) = Fin (real (length xs))"
  by (induction xs) (simp_all add: zero_npfloat_def)

lemma is_fin_sum_list: "(\<forall>x\<in>set xs. is_fin x) \<Longrightarrow> is_fin (sum_list xs)"
  using all_fin_map[of xs] by (auto simp: sum_list_Fin)

lemma sum_list_all_zero: "(\<forall>x\<in>set xs. x = Fin 0) \<Longrightarrow> sum_list xs = Fin 0"
  by (induction xs) (simp_all add: zero_npfloat_def)

subsection \<open>Products and array operations\<close>

lemma np_mult_commute: "(a::npfloat) * b = b * a"
  by (cases a; cases b) (simp_all add: mult.commute)

lemma np_mult_assoc: "((a::npfloat) * b) * c = a * (b * c)"
  by (cases a; cases b; cases c) (auto simp: zero_less_mult_iff mult_less_0_iff)

lemma np_mult_rotate: "(x::npfloat) * (y * z) = z * (x * y)"
  using np_mult_assoc[of x y z] np_mult_commute[of "x * y" z] by simp

lemma ncols_eq: "a \<noteq> [] \<Longrightarrow> \<forall>x\<in>set a. length x = d \<Longrightarrow> ncols a = d"
  by (cases a) (simp_all add: ncols_def)

lemma map2_column:
  "length v = length a \<Longrightarrow>
   map2 (*) v (column a d) = map (\<lambda>n. v ! n * a ! n ! d) [0..<length a]"
  by (rule nth_equalityI) (simp_all add: column_def)

lemma map2_columns:
  "length a = length b \<Longrightarrow>
   map2 (*) (column a i) (column b j) = map (\<lambda>n. a ! n ! i * b ! n ! j) [0..<length a]"
  by (rule nth_equalityI) (simp_all add: column_def)

lemma dot_vec_mat_nth:
  assumes "length v = length a" and "d < ncols a"
  shows "dot_vec_mat v a ! d = sum_list (map (\<lambda>n. v ! n * a ! n ! d) [0..<length a])"
  using assms by (simp add: dot_vec_mat_def map2_column)

lemma dot_T_nth:
  assumes "length a = length b" and "i < ncols a" and "j < ncols b"
  shows "dot_T a b ! i ! j = sum_list (map (\<lambda>n. a ! n ! i * b ! n ! j) [0..<length a])"
  using assms by (simp add: dot_T_def map2_columns)

subsection \<open>The weighted densities, the E-step, the M-step and the scorer\<close>

lemma comprehension_Inr:
  "(\<forall>x\<in>set xs. f x = Inr (g x)) \<Longrightarrow> comprehension f xs = Inr (map g xs)"
  by (induction xs) simp_all

lemma weighted_pdfs_eq:
  assumes "length pis \<le> length mu" and "length pis \<le> length cov"
    and "\<forall>k<length pis. pdf (mu ! k) (cov ! k) data = Inr (dens k)"
  shows "weighted_pdfs pdf data mu cov pis =
           Inr (map (\<lambda>k. map (\<lambda>d. pis ! k * d) (dens k)) [0..<length pis])"
  unfolding weighted_pdfs_def
  by (rule comprehension_Inr) (use assms in \<open>auto simp: item_def\<close>)

lemma map_index: "map f xs = map (\<lambda>n. f (xs ! n)) [0..<length xs]"
  by (rule nth_equalityI) simp_all

lemma weighted_pdfs_columns:
  assumes K: "length mu = length pis" "length cov = length pis" "pis \<noteq> []"
    and dens: "\<forall>k<length pis. pdf (mu ! k) (cov ! k) data = Inr (dens k)
                 \<and> length (dens k) = length data"
  obtains ws where "weighted_pdfs pdf data mu cov pis = Inr ws" and "ws \<noteq> []"
    and "length ws = length pis"
    and "map (\<lambda>n. column ws n) [0..<length (hd ws)] =
           map (\<lambda>n. map (\<lambda>k. pis ! k * dens k ! n) [0..<length pis]) [0..<length data]"
proof -
  define ws where "ws = map (\<lambda>k. map (\<lambda>d. pis ! k * d) (dens k)) [0..<length pis]"
  have wp: "weighted_pdfs pdf data mu cov pis = Inr ws"
    unfolding ws_def using K dens by (intro weighted_pdfs_eq) auto
  have ne: "ws \<noteq> []" using K by (simp add: ws_def)
  have hd: "length (hd ws) = length data"
    using K dens by (simp add: ws_def hd_map upt_rec[of 0])
  have col: "column ws n = map (\<lambda>k. pis ! k * dens k ! n) [0..<length pis]"
    if "n < length data" for n
    using that dens by (simp add: column_def ws_def)
  have w: "map (\<lambda>n. column ws n) [0..<length (hd ws)] =
           map (\<lambda>n. map (\<lambda>k. pis ! k * dens k ! n) [0..<length pis]) [0..<length data]"
    unfolding hd by (rule map_cong) (simp_all add: col)
  have lw: "length ws = length pis" by (simp add: ws_def)
  show ?thesis by (rule that[OF wp ne lw w])
qed

lemma expectation_step_single:
  assumes K: "length mu = length pis" "length cov = length pis" "pis \<noteq> []"
    and dens: "\<forall>k<length pis. pdf (mu ! k) (cov ! k) data = Inr (dens k)
                 \<and> length (dens k) = length data"
    and N: "length data = 1"
  shows "expectation_step pdf data mu cov pis = Inl AxisError"
proof -
  obtain ws where wp: "weighted_pdfs pdf data mu cov pis = Inr ws"
    and w: "map (\<lambda>n. column ws n) [0..<length (hd ws)] =
           map (\<lambda>n. map (\<lambda>k. pis ! k * dens k ! n) [0..<length pis]) [0..<length data]"
    using weighted_pdfs_columns[where dens = dens and pdf = pdf and data = data, OF K dens]
    by blast
  have "length (hd ws) = length data"
    using arg_cong[OF w, of length] by simp
  then show ?thesis
    unfolding expectation_step_def wp sum.case using N by simp
qed

lemma expectation_step_eq:
  assumes K: "length mu = length pis" "length cov = length pis" "pis \<noteq> []"
    and dens: "\<forall>k<length pis. pdf (mu ! k) (cov ! k) data = Inr (dens k)
                 \<and> length (dens k) = length data"
    and N: "length data \<noteq> 1"
    and r: "r = map (\<lambda>n. map (\<lambda>k. pis ! k * dens k ! n /
                     sum_list (map (\<lambda>j. pis ! j * dens j ! n) [0..<length pis]))
                   [0..<length pis]) [0..<length data]"
    and m_c: "m_c = map (\<lambda>k. sum_list (map (\<lambda>n. r ! n ! k) [0..<length data]))
                      [0..<length pis]"
  shows "expectation_step pdf data mu cov pis = Inr (r, m_c, map (\<lambda>m. m / sum_list m_c) m_c)"
proof -
  obtain ws where wp: "weighted_pdfs pdf data mu cov pis = Inr ws" and ne: "ws \<noteq> []"
    and lw: "length ws = length pis"
    and w: "map (\<lambda>n. column ws n) [0..<length (hd ws)] =
           map (\<lambda>n. map (\<lambda>k. pis ! k * dens k ! n) [0..<length pis]) [0..<length data]"
    using weighted_pdfs_columns[where dens = dens and pdf = pdf and data = data, OF K dens]
    by blast
  have r': "map (\<lambda>row. map (\<lambda>x. x / sum_list row) row)
             (map (\<lambda>n. column ws n) [0..<length (hd ws)]) = r"
    unfolding w r by (simp add: o_def)
  have lr: "length r = length data" by (simp add: r)
  have cr: "column r k = map (\<lambda>n. r ! n ! k) [0..<length data]" for k
    unfolding column_def using map_index[of "\<lambda>row. row ! k" r] lr by simp
  have m': "map (\<lambda>i. sum_list (column r i)) [0..<length ws] = m_c"
    unfolding m_c lw cr ..
  have "length (hd ws) = length data"
    using arg_cong[OF w, of length] by simp
  then have ne': "\<not> (ws = [] \<or> length (hd ws) = 1)"
    using ne N by simp
  show ?thesis
    unfolding expectation_step_def wp sum.case Let_def r' m'
    using ne' by simp
qed

lemma expectation_step_normalized:
  assumes K: "length mu = length pis" "length cov = length pis" "pis \<noteq> []"
    and dens: "\<forall>k<length pis. pdf (mu ! k) (cov ! k) data = Inr (dens k)
                 \<and> length (dens k) = length data"
    and fin: "\<forall>n<length data. \<forall>k<length pis. is_fin (pis ! k * dens k ! n)"
    and nz: "\<forall>n<length data.
               sum_list (map (\<lambda>j. pis ! j * dens j ! n) [0..<length pis]) \<noteq> Fin 0"
    and es: "expectation_step pdf data mu cov pis = Inr (r, m_c, pis')"
  shows "sum_list m_c = Fin (real (length data))"
    and "\<forall>m\<in>set m_c. is_fin m"
    and "pis' = map (\<lambda>m. m / sum_list m_c) m_c"
    and "\<forall>row\<in>set r. sum_list row = Fin 1"
proof -
  let ?K = "length pis" and ?N = "length data"
  let ?row = "\<lambda>n. map (\<lambda>j. pis ! j * dens j ! n) [0..<?K]"
  define r0 where "r0 = map (\<lambda>n. map (\<lambda>k. pis ! k * dens k ! n / sum_list (?row n)) [0..<?K])
                            [0..<?N]"
  define m0 where "m0 = map (\<lambda>k. sum_list (map (\<lambda>n. r0 ! n ! k) [0..<?N])) [0..<?K]"
  have N: "length data \<noteq> 1"
    using expectation_step_single[where dens = dens and pdf = pdf and data = data, OF K dens] es
    by auto
  have "expectation_step pdf data mu cov pis = Inr (r0, m0, map (\<lambda>m. m / sum_list m0) m0)"
    by (rule expectation_step_eq[where dens = dens and pdf = pdf and data = data,
          OF K dens N r0_def m0_def])
  with es have eqs: "r = r0" "m_c = m0" "pis' = map (\<lambda>m. m / sum_list m0) m0"
    by auto
  have r: "r = map (\<lambda>n. map (\<lambda>x. x / sum_list (?row n)) (?row n)) [0..<?N]"
    unfolding eqs r0_def by (simp add: o_def)
  have m_c: "m_c = map (\<lambda>k. sum_list (map (\<lambda>n. r ! n ! k) [0..<?N])) [0..<?K]"
    unfolding eqs m0_def ..
  have p: "pis' = map (\<lambda>m. m / sum_list m_c) m_c"
    unfolding eqs ..
  show "pis' = map (\<lambda>m. m / sum_list m_c) m_c" by (rule p)
  have rowfin: "\<forall>x\<in>set (?row n). is_fin x" if "n < ?N" for n
    using fin that by auto
  have rows: "sum_list (r ! n) = Fin 1" and rfin: "\<forall>x\<in>set (r ! n). is_fin x"
    if "n < ?N" for n
    using normalized_sum[OF rowfin[OF that]] nz that by (simp_all add: r)
  have lr: "length r = ?N" by (simp add: r)
  show "\<forall>row\<in>set r. sum_list row = Fin 1"
    using rows lr by (auto simp: in_set_conv_nth)
  have len: "\<forall>row\<in>set r. length row = ?K" by (auto simp: r)
  have col: "map (\<lambda>n. r ! n ! k) [0..<?N] = column r k" for k
    unfolding column_def using map_index[of "\<lambda>row. row ! k" r] lr by simp
  have "sum_list m_c = sum_list (map sum_list r)"
    unfolding m_c col by (rule column_sums_swap[OF len])
  also have "map sum_list r = map (\<lambda>_. Fin 1) [0..<?N]"
    using rows lr by (intro nth_equalityI) simp_all
  finally show "sum_list m_c = Fin (real ?N)" by (simp add: sum_list_const_one)
  show "\<forall>m\<in>set m_c. is_fin m"
  proof
    fix m assume "m \<in> set m_c"
    then obtain k where k: "k < ?K" and m: "m = sum_list (map (\<lambda>n. r ! n ! k) [0..<?N])"
      by (auto simp: m_c)
    have "\<forall>x\<in>set (map (\<lambda>n. r ! n ! k) [0..<?N]). is_fin x"
    proof
      fix x assume "x \<in> set (map (\<lambda>n. r ! n ! k) [0..<?N])"
      then obtain n where n: "n < ?N" and x: "x = r ! n ! k" by auto
      have "length (r ! n) = ?K" using n by (simp add: r)
      with k have "r ! n ! k \<in> set (r ! n)" by simp
      with rfin[OF n] x show "is_fin x" by blast
    qed
    with m show "is_fin m" using is_fin_sum_list by blast
  qed
qed

lemma sum_list_NaN: "NaN \<in> set xs \<Longrightarrow> sum_list xs = NaN"
proof (induction xs)
  case Nil
  then show ?case by simp
next
  case (Cons x xs)
  have l: "NaN + y = NaN" for y :: npfloat by (cases y) simp_all
  have r: "y + NaN = NaN" for y :: npfloat by (cases y) simp_all
  show ?case
  proof (cases "x = NaN")
    case True
    then show ?thesis by (simp add: l)
  next
    case False
    with Cons show ?thesis by (simp add: r)
  qed
qed

lemma expectation_step_nan_weights:
  assumes K: "length mu = length pis" "length cov = length pis" "pis \<noteq> []"
    and dens: "\<forall>k<length pis. pdf (mu ! k) (cov ! k) data = Inr (dens k)
                 \<and> length (dens k) = length data"
    and N: "length data \<noteq> 1"
    and n: "n < length data"
    and z: "\<forall>k<length pis. pis ! k * dens k ! n = Fin 0"
  shows "\<exists>r m_c. expectation_step pdf data mu cov pis =
                   Inr (r, m_c, replicate (length pis) NaN)"
proof -
  define r where "r = map (\<lambda>n. map (\<lambda>k. pis ! k * dens k ! n /
                       sum_list (map (\<lambda>j. pis ! j * dens j ! n) [0..<length pis]))
                     [0..<length pis]) [0..<length data]"
  define m_c where "m_c = map (\<lambda>k. sum_list (map (\<lambda>n. r ! n ! k) [0..<length data]))
                    [0..<length pis]"
  have es: "expectation_step pdf data mu cov pis =
              Inr (r, m_c, map (\<lambda>m. m / sum_list m_c) m_c)"
    by (rule expectation_step_eq[where dens = dens and pdf = pdf and data = data,
          OF K dens N r_def m_c_def])
  have s: "sum_list (map (\<lambda>j. pis ! j * dens j ! n) [0..<length pis]) = Fin 0"
    using z by (intro sum_list_all_zero) auto
  have cell: "r ! n ! k = NaN" if "k < length pis" for k
    using that n z s by (simp add: r_def)
  have "sum_list (map (\<lambda>n. r ! n ! k) [0..<length data]) = NaN" if k: "k < length pis" for k
  proof (rule sum_list_NaN)
    have "r ! n ! k \<in> set (map (\<lambda>n. r ! n ! k) [0..<length data])"
      using n by auto
    then show "NaN \<in> set (map (\<lambda>n. r ! n ! k) [0..<length data])"
      unfolding cell[OF k] .
  qed
  then have "m_c = map (\<lambda>k. NaN) [0..<length pis]"
    unfolding m_c_def by (intro map_cong) simp_all
  then have m: "m_c = replicate (length pis) NaN"
    by (simp add: map_replicate_const)
  have "map (\<lambda>m. m / sum_list m_c) m_c = replicate (length pis) NaN"
    unfolding m by simp
  with es show ?thesis by auto
qed

lemma maximization_step_entries:
  assumes shape: "length r = length data" "\<forall>x\<in>set data. length x = ncols data"
    and k: "k < length m_c" and a: "a < ncols data" and b: "b < ncols data"
    and ms: "maximization_step data r m_c = (mu', cov')"
  shows "mu' ! k ! a =
           sum_list (map (\<lambda>n. r ! n ! k * data ! n ! a) [0..<length data]) / m_c ! k"
    and "cov' ! k ! a ! b =
           sum_list (map (\<lambda>n. r ! n ! k *
                      ((data ! n ! a - mu' ! k ! a) * (data ! n ! b - mu' ! k ! b)))
                    [0..<length data]) / m_c ! k"
proof -
  let ?N = "length data" and ?D = "ncols data"
  from ms have mu': "mu' = map (\<lambda>i. map (\<lambda>x. x / m_c ! i) (dot_vec_mat (column r i) data))
                             [0..<length m_c]"
    by (simp add: maximization_step_def Let_def)
  have ne: "data \<noteq> []" using a by (auto simp: ncols_def)
  have lmu: "length (mu' ! k) = ?D" using k by (simp add: mu' dot_vec_mat_def)
  have lcol: "length (column r k) = ?N" using shape by (simp add: column_def)
  show muk: "mu' ! k ! a =
           sum_list (map (\<lambda>n. r ! n ! k * data ! n ! a) [0..<?N]) / m_c ! k"
  proof -
    have "mu' ! k ! a = dot_vec_mat (column r k) data ! a / m_c ! k"
      using k a by (simp add: mu' dot_vec_mat_def)
    also have "dot_vec_mat (column r k) data ! a =
                 sum_list (map (\<lambda>n. column r k ! n * data ! n ! a) [0..<?N])"
      using lcol a by (intro dot_vec_mat_nth) simp_all
    also have "map (\<lambda>n. column r k ! n * data ! n ! a) [0..<?N] =
               map (\<lambda>n. r ! n ! k * data ! n ! a) [0..<?N]"
      using shape by (intro map_cong) (simp_all add: column_def)
    finally show ?thesis .
  qed
  define centred where "centred = map (\<lambda>x. map2 (-) x (mu' ! k)) data"
  define scaled where
    "scaled = map2 (\<lambda>row ri. map (\<lambda>x. x * ri) row) centred (column r k)"
  from ms k have cov': "cov' ! k = map (map (\<lambda>x. x / m_c ! k)) (dot_T centred scaled)"
    by (auto simp: maximization_step_def Let_def centred_def scaled_def)
  have lc: "length centred = ?N" by (simp add: centred_def)
  have ls: "length scaled = ?N" using lc lcol by (simp add: scaled_def)
  have rowc: "length (centred ! n) = ?D" if "n < ?N" for n
    using that shape lmu by (simp add: centred_def)
  have rows: "length (scaled ! n) = ?D" if "n < ?N" for n
    using that lc lcol rowc by (simp add: scaled_def)
  have nc: "ncols centred = ?D"
    using ne lc rowc by (intro ncols_eq) (auto simp: in_set_conv_nth)
  have ns: "ncols scaled = ?D"
    using ne ls rows by (intro ncols_eq) (auto simp: in_set_conv_nth)
  have ce: "centred ! n ! a = data ! n ! a - mu' ! k ! a" if "n < ?N" for n
    using that a shape lmu by (simp add: centred_def)
  have se: "scaled ! n ! b = (data ! n ! b - mu' ! k ! b) * r ! n ! k" if "n < ?N" for n
    using that b shape lmu lc lcol rowc[OF that] by (simp add: scaled_def centred_def column_def)
  have "cov' ! k ! a ! b = dot_T centred scaled ! a ! b / m_c ! k"
    using a b nc ns by (simp add: cov' dot_T_def)
  also have "dot_T centred scaled ! a ! b =
               sum_list (map (\<lambda>n. centred ! n ! a * scaled ! n ! b) [0..<?N])"
    using dot_T_nth[of centred scaled a b] lc ls nc ns a b by simp
  also have "map (\<lambda>n. centred ! n ! a * scaled ! n ! b) [0..<?N] =
             map (\<lambda>n. r ! n ! k * ((data ! n ! a - mu' ! k ! a) * (data ! n ! b - mu' ! k ! b)))
               [0..<?N]"
    by (rule map_cong) (simp_all add: ce se np_mult_rotate)
  finally show "cov' ! k ! a ! b =
           sum_list (map (\<lambda>n. r ! n ! k *
                      ((data ! n ! a - mu' ! k ! a) * (data ! n ! b - mu' ! k ! b)))
                    [0..<?N]) / m_c ! k" .
qed

lemma compute_aic_eq:
  assumes K: "length mu = length pis" "length cov = length pis" "pis \<noteq> []"
    and dens: "\<forall>k<length pis. pdf (mu ! k) (cov ! k) data = Inr (dens k)
                 \<and> length (dens k) = length data"
  shows "compute_aic pdf data mu cov pis =
     Inr (Fin 2 * Fin (real (length mu) *
            (real (length (mu ! 0)) + real (length (mu ! 0)) * (real (length (mu ! 0)) + 1) / 2
             + 1))
          - Fin 2 * sum_list (map (\<lambda>n. np_log (sum_list
                        (map (\<lambda>k. pis ! k * dens k ! n) [0..<length pis])))
                      [0..<length data]))"
proof -
  obtain ws where wp: "weighted_pdfs pdf data mu cov pis = Inr ws" and ne: "ws \<noteq> []"
    and w: "map (\<lambda>n. column ws n) [0..<length (hd ws)] =
           map (\<lambda>n. map (\<lambda>k. pis ! k * dens k ! n) [0..<length pis]) [0..<length data]"
    using weighted_pdfs_columns[where dens = dens and pdf = pdf and data = data, OF K dens]
    by blast
  have mix: "map (\<lambda>n. sum_list (column ws n)) [0..<length (hd ws)] =
             map (\<lambda>n. sum_list (map (\<lambda>k. pis ! k * dens k ! n) [0..<length pis]))
               [0..<length data]"
    using arg_cong[OF w, of "map sum_list"] by (simp add: o_def)
  from K obtain mu0 rest where mu: "mu = mu0 # rest" by (cases mu) auto
  show ?thesis
    unfolding compute_aic_def mu list.case wp[unfolded mu] sum.case Let_def mix
    using ne by (simp add: o_def)
qed

subsection \<open>The loop\<close>

lemma PInf_minus_not_less: "\<not> PInf - c < threshold"
  by (cases c; cases threshold) (simp_all add: minus_npfloat_def)

lemma np_le_not_less: "(a::npfloat) \<le> b \<Longrightarrow> \<not> b < a"
  by (cases a; cases b) simp_all

lemma em_iteration_result:
  assumes "em_iteration pdf data max_iter threshold it s = Inr f"
  obtains r m_c pis' mu' cov' c where
    "expectation_step pdf data (st_mu s) (st_cov s) (st_pi s) = Inr (r, m_c, pis')"
    "maximization_step data r m_c = (mu', cov')"
    "compute_aic pdf data mu' cov' pis' = Inr c"
    "st_pi (state_of f) = pis'" "st_mu (state_of f) = mu'" "st_cov (state_of f) = cov'"
    "aic_list (state_of f) = aic_list s @ [c]"
    "executed (state_of f) = executed s + 1"
    "previous_aic s - c < threshold \<Longrightarrow>
       no_improve_count (state_of f) = no_improve_count s + 1
       \<and> (is_Return f \<longleftrightarrow> 3 \<le> no_improve_count s + 1)"
    "\<not> previous_aic s - c < threshold \<Longrightarrow>
       no_improve_count (state_of f) = 0 \<and> \<not> is_Return f"
    "is_Return f \<Longrightarrow> last (printed (state_of f)) = Terminating_early threshold"
    "\<not> is_Return f \<Longrightarrow> previous_aic (state_of f) = c"
proof -
  from assms obtain r m_c pis' where
    es: "expectation_step pdf data (st_mu s) (st_cov s) (st_pi s) = Inr (r, m_c, pis')"
    by (auto simp: em_iteration_def split: sum.splits)
  obtain mu' cov' where ms: "maximization_step data r m_c = (mu', cov')"
    by (cases "maximization_step data r m_c")
  from assms es ms obtain c where ca: "compute_aic pdf data mu' cov' pis' = Inr c"
    by (auto simp: em_iteration_def split: sum.splits)
  show ?thesis
    by (rule that[OF es ms ca])
       (use assms es ms ca in \<open>auto simp: em_iteration_def Let_def split: if_splits\<close>)
qed

lemma loop_inv_initial: "loop_inv 0 (initial_state pi0 mu0 cov0)"
  by (simp add: loop_inv_def initial_state_def)

lemma loop_inv_step:
  assumes inv: "loop_inv i s"
    and it: "em_iteration pdf data max_iter threshold i s = Inr f"
  shows "length (aic_list (state_of f)) = Suc i"
    and "executed (state_of f) = Suc i"
    and "\<not> is_Return f \<Longrightarrow> loop_inv (Suc i) (state_of f)"
    and "is_Return f \<Longrightarrow> 3 \<le> i \<and> no_improve_count (state_of f) = 3"
    and "i = 0 \<Longrightarrow> \<not> is_Return f \<and> no_improve_count (state_of f) = 0"
proof -
  from it obtain c where
    a: "aic_list (state_of f) = aic_list s @ [c]"
    and e: "executed (state_of f) = executed s + 1"
    and lt: "previous_aic s - c < threshold \<Longrightarrow>
       no_improve_count (state_of f) = no_improve_count s + 1
       \<and> (is_Return f \<longleftrightarrow> 3 \<le> no_improve_count s + 1)"
    and ge: "\<not> previous_aic s - c < threshold \<Longrightarrow>
       no_improve_count (state_of f) = 0 \<and> \<not> is_Return f"
    by (rule em_iteration_result) blast
  have first: "\<not> previous_aic s - c < threshold" if "i = 0"
    using inv that by (simp add: loop_inv_def PInf_minus_not_less)
  show "length (aic_list (state_of f)) = Suc i" using inv a by (simp add: loop_inv_def)
  show "executed (state_of f) = Suc i" using inv e by (simp add: loop_inv_def)
  show "loop_inv (Suc i) (state_of f)" if "\<not> is_Return f"
  proof (cases "previous_aic s - c < threshold")
    case True
    with first have "i \<noteq> 0" by blast
    with True lt that inv a e show ?thesis by (auto simp: loop_inv_def)
  next
    case False
    with ge inv a e show ?thesis by (auto simp: loop_inv_def)
  qed
  show "3 \<le> i \<and> no_improve_count (state_of f) = 3" if "is_Return f"
  proof (cases "previous_aic s - c < threshold")
    case True
    with first have "i \<noteq> 0" by blast
    with True lt that inv show ?thesis by (auto simp: loop_inv_def)
  next
    case False
    with ge that show ?thesis by blast
  qed
  show "\<not> is_Return f \<and> no_improve_count (state_of f) = 0" if "i = 0"
    using first[OF that] ge by blast
qed

lemma em_loop_result:
  assumes "em_loop pdf data max_iter threshold [i..<n] s = Inr s'"
    and "loop_inv i s" and "i \<le> n"
  shows "executed s' = length (aic_list s') \<and> length (aic_list s') \<le> n
         \<and> (if last (printed s') = Terminating_early threshold
             then 4 \<le> length (aic_list s') \<and> no_improve_count s' = 3
             else length (aic_list s') = n \<and> last (printed s') = Did_not_converge max_iter)"
  using assms
proof (induction "n - i" arbitrary: i s)
  case 0
  then have "i = n" by simp
  with 0 show ?case by (auto simp: loop_inv_def)
next
  case (Suc d)
  then have lt: "i < n" by simp
  then have upt: "[i..<n] = i # [Suc i..<n]" by (rule upt_conv_Cons)
  from Suc.prems(1) obtain f where f: "em_iteration pdf data max_iter threshold i s = Inr f"
    unfolding upt by (auto split: sum.splits)
  note step = loop_inv_step[OF Suc.prems(2) f]
  show ?case
  proof (cases f)
    case (Return t)
    with Suc.prems(1) f have "s' = t" unfolding upt by simp
    moreover have "last (printed t) = Terminating_early threshold"
      using f Return by (elim em_iteration_result) simp
    ultimately show ?thesis using step Return lt by auto
  next
    case (Continue t)
    with Suc.prems(1) f have run: "em_loop pdf data max_iter threshold [Suc i..<n] t = Inr s'"
      unfolding upt by simp
    have "loop_inv (Suc i) t" using step(3) Continue by simp
    moreover have "d = n - Suc i" using Suc.hyps(2) by simp
    ultimately show ?thesis using Suc.hyps(1)[OF _ run] lt by simp
  qed
qed

lemma reachable_inv:
  "reachable pdf data max_iter threshold (initial_state pi0 mu0 cov0) it s \<Longrightarrow> loop_inv it s"
proof (induction rule: reachable.induct)
  case start
  show ?case by (rule loop_inv_initial)
next
  case (step it s s')
  from loop_inv_step(3)[OF step.IH step.hyps(2)] show ?case by simp
qed

lemma em_run_result:
  assumes "em_run pdf data max_iter pi0 mu0 cov0 threshold = Inr s"
  shows "executed s = length (aic_list s) \<and> length (aic_list s) \<le> nat max_iter
         \<and> (if last (printed s) = Terminating_early threshold
             then 4 \<le> length (aic_list s) \<and> no_improve_count s = 3
             else length (aic_list s) = nat max_iter
                  \<and> last (printed s) = Did_not_converge max_iter)"
  using assms unfolding em_run_def
  by (rule em_loop_result) (simp_all add: loop_inv_initial)

subsection \<open>The initializer\<close>

lemma initialize_parameters_weights:
  assumes "initialize_parameters rand num_components seed = Inr (p0, m0, c0)"
  shows "0 < num_components"
    and "p0 = replicate (nat num_components) (Fin (1 / real_of_int num_components))"
  using assms by (auto simp: initialize_parameters_def Let_def split: if_splits)

lemma replicate_2: "replicate 2 x = [x, x]"
  by (simp add: numeral_2_eq_2)

subsection \<open>A concrete fit: one component on the corners of a square\<close>

lemma ln2_bounds: "1 / 2 < ln (2::real)" "ln (2::real) < 1"
proof -
  have "exp (1 / 2) * exp (1 / 2) = exp (1::real)"
    unfolding exp_add[symmetric] by simp
  moreover have "exp (1::real) \<le> 3" by (rule exp_le)
  ultimately have lt: "exp (1 / 2) * exp (1 / 2) < (2::real) * 2" by simp
  have "exp (1 / 2) < (2::real)"
  proof (rule ccontr)
    assume "\<not> exp (1 / 2) < (2::real)"
    then have "2 \<le> exp (1 / 2 :: real)" by simp
    then have "(2::real) * 2 \<le> exp (1 / 2) * exp (1 / 2)"
      by (intro mult_mono) simp_all
    with lt show False by simp
  qed
  then have "ln (exp (1 / 2 :: real)) < ln 2"
    by (subst ln_less_cancel_iff) simp_all
  then show "1 / 2 < ln (2::real)" by simp
  show "ln (2::real) < 1" by (rule ln_2_less_1)
qed

lemma ln2pi_bounds: "0 < ln (2 * pi)" "ln (2 * pi) < 8"
proof -
  show "0 < ln (2 * pi)" using pi_ge_two by (simp add: ln_gt_zero_iff)
  have "ln (2 * pi) \<le> 2 * pi - 1" using pi_gt_zero by (intro ln_le_minus_one) simp
  also have "\<dots> < 8" using pi_less_4 by simp
  finally show "ln (2 * pi) < 8" .
qed

lemma square_density_pos: "0 < square_density"
  by (simp add: square_density_def)

lemma square_pdf:
  "mvn_pdf2 [Fin (t + 1), Fin 1] (eye 2) (square_data t) =
     Inr [Fin square_density, Fin square_density, Fin square_density, Fin square_density]"
proof -
  have "np_exp (- (2 * ln (2 * pi) + 2) / 2) = square_density"
    unfolding np_exp_def square_density_def using ln2pi_bounds(2) ln2_bounds(1) by auto
  then show ?thesis
    using ln2pi_bounds(1)
    by (simp add: mvn_pdf2_def eye_def square_data_def upt_rec)
qed

lemma square_weighted:
  "weighted_pdfs mvn_pdf2 (square_data t) (square_mean t) [eye 2] [Fin 1] =
     Inr [[Fin square_density, Fin square_density, Fin square_density, Fin square_density]]"
  by (simp add: weighted_pdfs_def item_def square_mean_def square_pdf)

lemma square_expectation:
  "expectation_step mvn_pdf2 (square_data t) (square_mean t) [eye 2] [Fin 1] =
     Inr ([[Fin 1], [Fin 1], [Fin 1], [Fin 1]], [Fin 4], [Fin 1])"
  using square_density_pos
  by (simp add: expectation_step_def square_weighted column_def zero_npfloat_def)

lemma square_maximization:
  "maximization_step (square_data t) [[Fin 1], [Fin 1], [Fin 1], [Fin 1]] [Fin 4] =
     (square_mean t, [eye 2])"
  apply (simp add: maximization_step_def dot_vec_mat_def dot_T_def column_def ncols_def
      square_data_def square_mean_def eye_def upt_rec zero_npfloat_def
      minus_npfloat_def Let_def)
  apply (simp add: field_simps)
  done

lemma square_compute_aic:
  "compute_aic mvn_pdf2 (square_data t) (square_mean t) [eye 2] [Fin 1] = Inr (Fin square_aic)"
  using square_density_pos
  by (simp add: compute_aic_def square_weighted[unfolded square_mean_def] square_mean_def
      column_def zero_npfloat_def minus_npfloat_def square_aic_def
      square_density_def)

lemma square_iteration:
  assumes "st_pi s = [Fin 1]" and "st_mu s = square_mean t" and "st_cov s = [eye 2]"
  shows "em_iteration mvn_pdf2 (square_data t) max_iter threshold it s =
     (let s1 = s\<lparr>aic_list := aic_list s @ [Fin square_aic],
                  executed := executed s + 1,
                  printed := printed s @
                    (if it mod 10 = 0 \<or> int it = max_iter - 1
                     then [Iteration_report it (Fin square_aic) [Fin 1] (square_mean t) [eye 2]]
                     else [])\<rparr>
      in if previous_aic s - Fin square_aic < threshold
         then if 3 \<le> no_improve_count s + 1
              then Inr (Return (s1\<lparr>no_improve_count := no_improve_count s + 1,
                                     printed := printed s1 @ [Terminating_early threshold]\<rparr>))
              else Inr (Continue (s1\<lparr>no_improve_count := no_improve_count s + 1,
                                       previous_aic := Fin square_aic\<rparr>))
         else Inr (Continue (s1\<lparr>no_improve_count := 0, previous_aic := Fin square_aic\<rparr>)))"
  using assms
  by (cases s) (simp add: em_iteration_def square_expectation square_maximization square_compute_aic
      Let_def)

lemma upt_200: "[0..<200::nat] = 0 # 1 # 2 # 3 # [4..<200]"
  by (simp add: upt_rec)

lemma square_run:
  "\<exists>s. em_run mvn_pdf2 (square_data 0) 200 [Fin 1] (square_mean 0) [eye 2] (Fin (1 / 10)) = Inr s
       \<and> last (printed s) = Terminating_early (Fin (1 / 10))
       \<and> length (aic_list s) = 4 \<and> st_mu s = square_mean 0"
  by (simp add: em_run_def upt_200 initial_state_def square_iteration minus_npfloat_def Let_def)

lemma square_reachable:
  "n \<le> 3 \<Longrightarrow>
   \<exists>s. reachable mvn_pdf2 (square_data 0) 200 (Fin (1 / 10))
          (initial_state [Fin 1] (square_mean 0) [eye 2]) n s
      \<and> st_pi s = [Fin 1] \<and> st_mu s = square_mean 0 \<and> st_cov s = [eye 2]
      \<and> previous_aic s = (if n = 0 then PInf else Fin square_aic)
      \<and> no_improve_count s = n - 1"
proof (induction n)
  case 0
  show ?case
    by (rule exI[of _ "initial_state [Fin 1] (square_mean 0) [eye 2]"])
       (simp add: reachable.start initial_state_def)
next
  case (Suc n)
  then obtain s where r: "reachable mvn_pdf2 (square_data 0) 200 (Fin (1 / 10))
          (initial_state [Fin 1] (square_mean 0) [eye 2]) n s"
    and p: "st_pi s = [Fin 1]" "st_mu s = square_mean 0" "st_cov s = [eye 2]"
    and a: "previous_aic s = (if n = 0 then PInf else Fin square_aic)"
    and c: "no_improve_count s = n - 1"
    by auto
  from Suc.prems have n: "n \<le> 2" by simp
  have "\<exists>s'. em_iteration mvn_pdf2 (square_data 0) 200 (Fin (1 / 10)) n s = Inr (Continue s')
          \<and> st_pi s' = [Fin 1] \<and> st_mu s' = square_mean 0 \<and> st_cov s' = [eye 2]
          \<and> previous_aic s' = Fin square_aic \<and> no_improve_count s' = n"
    using a c n p
    by (cases "n = 0") (auto simp: square_iteration[OF p] minus_npfloat_def Let_def)
  then obtain s' where it: "em_iteration mvn_pdf2 (square_data 0) 200 (Fin (1 / 10)) n s =
                         Inr (Continue s')"
    and p': "st_pi s' = [Fin 1]" "st_mu s' = square_mean 0" "st_cov s' = [eye 2]"
      "previous_aic s' = Fin square_aic" "no_improve_count s' = n"
    by blast
  from reachable.step[OF r it] p' show ?case by auto
qed

lemma square_single_run:
  "em_run mvn_pdf2 (square_data t) 1 [Fin 1] (square_mean t) [eye 2] threshold =
     Inr \<lparr>st_pi = [Fin 1], st_mu = square_mean t, st_cov = [eye 2],
          previous_aic = Fin square_aic, no_improve_count = 0,
          aic_list = [Fin square_aic],
          printed = [Iteration_report 0 (Fin square_aic) [Fin 1] (square_mean t) [eye 2],
                     Did_not_converge 1],
          executed = 1\<rparr>"
  using PInf_minus_not_less[of "Fin square_aic" threshold]
  by (simp add: em_run_def initial_state_def square_iteration Let_def)

subsection \<open>A dataset of a single point\<close>

lemma origin_pdf:
  "mvn_pdf2 [Fin 0, Fin 0] (eye 2) [[Fin 0, Fin 0]] = Inr [Fin (1 / (2 * pi))]"
proof -
  have "exp (- ln (2 * pi)) = 1 / (2 * pi)"
    by (simp add: exp_minus inverse_eq_divide)
  moreover have "\<not> - ln (2 * pi) \<le> - 1075 * ln 2"
    using ln2pi_bounds(2) ln2_bounds(1) by argo
  ultimately have "np_exp (- (2 * ln (2 * pi) + 0) / 2) = 1 / (2 * pi)"
    unfolding np_exp_def by simp
  then show ?thesis
    by (simp add: mvn_pdf2_def eye_def upt_rec)
qed

lemma origin_weighted:
  "weighted_pdfs mvn_pdf2 [[Fin 0, Fin 0]] [[Fin 0, Fin 0]] [eye 2] [Fin 1] =
     Inr [[Fin (1 / (2 * pi))]]"
  by (simp add: weighted_pdfs_def item_def origin_pdf)

lemma origin_expectation:
  "expectation_step mvn_pdf2 [[Fin 0, Fin 0]] [[Fin 0, Fin 0]] [eye 2] [Fin 1] = Inl AxisError"
  by (simp add: expectation_step_def origin_weighted)

subsection \<open>A concrete E-step: a point whose density underflows\<close>

lemma far_pdf:
  "mvn_pdf2 [Fin 0, Fin 0] (eye 2) far_data = Inr [Fin (1 / (2 * pi)), Fin 0]"
proof -
  have "exp (- ln (2 * pi)) = 1 / (2 * pi)"
    by (simp add: exp_minus inverse_eq_divide)
  moreover have "\<not> - ln (2 * pi) \<le> - 1075 * ln 2"
    using ln2pi_bounds(2) ln2_bounds(1) by argo
  ultimately have near: "np_exp (- (2 * ln (2 * pi) + 0) / 2) = 1 / (2 * pi)"
    unfolding np_exp_def by simp
  have "- (2 * ln (2 * pi) + 20000) / 2 \<le> - 1075 * ln 2"
    using ln2pi_bounds(1) ln2_bounds(2) by argo
  then have far: "np_exp (- (2 * ln (2 * pi) + 20000) / 2) = 0"
    unfolding np_exp_def by simp
  show ?thesis
    using near far
    by (simp add: mvn_pdf2_def eye_def far_data_def upt_rec)
qed

lemma far_weighted:
  "weighted_pdfs mvn_pdf2 far_data [[Fin 0, Fin 0]] [eye 2] [Fin 1] =
     Inr [[Fin (1 / (2 * pi)), Fin 0]]"
  by (simp add: weighted_pdfs_def item_def far_pdf)

lemma far_expectation:
  "expectation_step mvn_pdf2 far_data [[Fin 0, Fin 0]] [eye 2] [Fin 1] =
     Inr ([[Fin 1], [NaN]], [NaN], [NaN])"
  by (simp add: expectation_step_def far_weighted column_def zero_npfloat_def)

lemma far_maximization:
  "maximization_step far_data [[Fin 1], [NaN]] [NaN] =
     ([[NaN, NaN]], [[[NaN, NaN], [NaN, NaN]]])"
  by (simp add: maximization_step_def dot_vec_mat_def dot_T_def column_def ncols_def
      far_data_def upt_rec zero_npfloat_def minus_npfloat_def Let_def)

lemma far_compute_aic:
  "compute_aic mvn_pdf2 far_data [[NaN, NaN]] [[[NaN, NaN], [NaN, NaN]]] [NaN] = Inl ValueError"
  by (simp add: compute_aic_def weighted_pdfs_def item_def mvn_pdf2_def)

lemma far_iteration:
  "em_iteration mvn_pdf2 far_data max_iter threshold it (initial_state [Fin 1] [[Fin 0, Fin 0]] [eye 2])
     = Inl ValueError"
  by (simp add: em_iteration_def initial_state_def far_expectation far_maximization far_compute_aic)

subsection \<open>Rounding errors of the sums and quotients\<close>

lemma unit_roundoff_bounds: "0 < unit_roundoff" "unit_roundoff < 1"
  by (simp_all add: unit_roundoff_def)

lemma tiny_pos: "0 < tiny"
  by (simp add: tiny_def)

lemma rounds_nonneg:
  assumes "rounds x y" "0 \<le> x"
  shows "\<bar>y - x\<bar> \<le> unit_roundoff * x + tiny"
proof -
  have "max (unit_roundoff * \<bar>x\<bar>) tiny \<le> unit_roundoff * x + tiny"
    using assms(2) unit_roundoff_bounds(1) tiny_pos by (simp add: max_def)
  with assms(1) show ?thesis unfolding rounds_def by linarith
qed

lemma roundsI:
  assumes "\<bar>y - x\<bar> \<le> unit_roundoff * \<bar>x\<bar>" "0 \<le> x" "0 \<le> y"
  shows "rounds x y"
proof -
  have "x \<le> 0 \<longrightarrow> y \<le> 0"
  proof
    assume "x \<le> 0"
    with assms(2) have "x = 0" by simp
    with assms(1) show "y \<le> 0" by simp
  qed
  with assms show ?thesis unfolding rounds_def by (simp add: max_def)
qed

lemma tiny_le_unit_roundoff: "tiny \<le> unit_roundoff"
proof -
  have "(2::real) ^ 53 \<le> 2 ^ 1075" by (rule power_increasing) simp_all
  then show ?thesis unfolding tiny_def unit_roundoff_def
    by (intro divide_left_mono) simp_all
qed

lemma power_roundoff_bounds:
  assumes "real n * unit_roundoff \<le> 1 / 2"
  shows "1 - real n * unit_roundoff \<le> (1 - unit_roundoff) ^ n"
    and "(1 + unit_roundoff) ^ n \<le> 1 + 2 * real n * unit_roundoff"
proof -
  let ?u = unit_roundoff
  define a where "a = real n * ?u"
  have u: "0 < ?u" "?u < 1" by (rule unit_roundoff_bounds)+
  have a: "0 \<le> a" "a \<le> 1 / 2" using assms u(1) unfolding a_def by simp_all
  show bern: "1 - real n * ?u \<le> (1 - ?u) ^ n"
    using Bernoulli_inequality[of "- ?u" n] u by simp
  have "((1 + ?u) * (1 - ?u)) ^ n \<le> 1"
    using u by (intro power_le_one mult_nonneg_nonneg) (simp_all add: algebra_simps)
  then have prod: "(1 + ?u) ^ n * (1 - ?u) ^ n \<le> 1"
    by (simp add: power_mult_distrib)
  have P: "0 \<le> (1 + ?u) ^ n" using u by simp
  have "(1 + ?u) ^ n * (1 - a) \<le> (1 + ?u) ^ n * (1 - ?u) ^ n"
    using bern P unfolding a_def by (intro mult_left_mono) simp_all
  with prod have Pc: "(1 + ?u) ^ n * (1 - a) \<le> 1" by linarith
  have "0 \<le> a * (1 - 2 * a)" using a by (intro mult_nonneg_nonneg) simp_all
  then have one: "1 \<le> (1 - a) * (1 + 2 * a)" by (simp add: algebra_simps)
  have "(1 + ?u) ^ n * 1 \<le> (1 + ?u) ^ n * ((1 - a) * (1 + 2 * a))"
    using one P by (intro mult_left_mono) simp_all
  also have "\<dots> = ((1 + ?u) ^ n * (1 - a)) * (1 + 2 * a)" by simp
  also have "\<dots> \<le> 1 * (1 + 2 * a)"
    using Pc a by (intro mult_right_mono) simp_all
  finally show "(1 + ?u) ^ n \<le> 1 + 2 * real n * ?u" unfolding a_def by simp
qed

lemma f64_sum_bounds:
  assumes "f64_sum xs S" "\<forall>x\<in>set xs. 0 \<le> x"
  shows "xs \<noteq> []
       \<and> (1 - unit_roundoff) ^ (length xs - 1) * sum_list xs \<le> S
       \<and> S \<le> (1 + unit_roundoff) ^ (length xs - 1) * sum_list xs"
  using assms
proof (induction rule: f64_sum.induct)
  case (one x)
  show ?case by simp
next
  case (add xs a ys b s)
  let ?u = unit_roundoff
  let ?n = "length xs + length ys - 2"
  from add have ihx: "xs \<noteq> []" "(1 - ?u) ^ (length xs - 1) * sum_list xs \<le> a"
      "a \<le> (1 + ?u) ^ (length xs - 1) * sum_list xs"
    and ihy: "ys \<noteq> []" "(1 - ?u) ^ (length ys - 1) * sum_list ys \<le> b"
      "b \<le> (1 + ?u) ^ (length ys - 1) * sum_list ys"
    by simp_all
  have A: "0 \<le> sum_list xs" and B: "0 \<le> sum_list ys"
    using add.prems by (simp_all add: sum_list_nonneg)
  have lx: "length xs - 1 \<le> ?n" and ly: "length ys - 1 \<le> ?n"
    using ihx(1) ihy(1) by (cases xs; cases ys; simp)+
  have u: "0 \<le> 1 - ?u" "1 - ?u \<le> 1" "1 \<le> 1 + ?u" "0 < ?u"
    using unit_roundoff_bounds by simp_all
  have lo_x: "(1 - ?u) ^ ?n * sum_list xs \<le> a"
    using mult_right_mono[OF power_decreasing[OF lx u(1,2)] A] ihx(2) by linarith
  have lo_y: "(1 - ?u) ^ ?n * sum_list ys \<le> b"
    using mult_right_mono[OF power_decreasing[OF ly u(1,2)] B] ihy(2) by linarith
  have hi_x: "a \<le> (1 + ?u) ^ ?n * sum_list xs"
    using mult_right_mono[OF power_increasing[OF lx u(3)] A] ihx(3) by linarith
  have hi_y: "b \<le> (1 + ?u) ^ ?n * sum_list ys"
    using mult_right_mono[OF power_increasing[OF ly u(3)] B] ihy(3) by linarith
  have lo: "(1 - ?u) ^ ?n * (sum_list xs + sum_list ys) \<le> a + b"
    using lo_x lo_y by (simp add: distrib_left)
  have hi: "a + b \<le> (1 + ?u) ^ ?n * (sum_list xs + sum_list ys)"
    using hi_x hi_y by (simp add: distrib_left)
  have ab: "0 \<le> a + b"
  proof -
    have "0 \<le> (1 - ?u) ^ ?n * (sum_list xs + sum_list ys)"
      using u(1) A B by (intro mult_nonneg_nonneg) simp_all
    with lo show ?thesis by linarith
  qed
  from add.hyps(3) ab have s: "(1 - ?u) * (a + b) \<le> s" "s \<le> (1 + ?u) * (a + b)"
    unfolding rounds_add_def by (simp_all add: abs_le_iff algebra_simps)
  have e: "length (xs @ ys) - 1 = Suc ?n"
    using ihx(1) ihy(1) by (cases xs; cases ys; simp)
  have "(1 - ?u) ^ Suc ?n * (sum_list xs + sum_list ys) \<le> (1 - ?u) * (a + b)"
    using mult_left_mono[OF lo u(1)] by (simp add: mult.assoc)
  moreover have "(1 + ?u) * (a + b) \<le> (1 + ?u) ^ Suc ?n * (sum_list xs + sum_list ys)"
    using mult_left_mono[OF hi, of "1 + ?u"] u(3) by (simp add: mult.assoc)
  ultimately show ?case
    unfolding e using s ihx(1) by simp
next
  case (reorder xs x ys s)
  then show ?case by (simp add: add.left_commute)
qed

lemma rounds_sum:
  assumes "list_all2 (\<lambda>x p. rounds (x / S) p) m ps" "\<forall>x\<in>set m. 0 \<le> x" "0 < S"
  shows "\<bar>sum_list ps - sum_list m / S\<bar>
           \<le> unit_roundoff * (sum_list m / S) + real (length m) * tiny"
  using assms(1,2)
proof (induction rule: list_all2_induct)
  case Nil
  show ?case by simp
next
  case (Cons x xs p ps)
  have "0 \<le> x / S" using Cons.prems assms(3) by simp
  from rounds_nonneg[OF Cons.hyps(1) this]
  have 1: "\<bar>p - x / S\<bar> \<le> unit_roundoff * (x / S) + tiny" .
  have 2: "\<bar>sum_list ps - sum_list xs / S\<bar>
           \<le> unit_roundoff * (sum_list xs / S) + real (length xs) * tiny"
    using Cons by simp
  have "sum_list (p # ps) - sum_list (x # xs) / S =
          (p - x / S) + (sum_list ps - sum_list xs / S)"
    by (simp add: add_divide_distrib)
  then have "\<bar>sum_list (p # ps) - sum_list (x # xs) / S\<bar>
           \<le> \<bar>p - x / S\<bar> + \<bar>sum_list ps - sum_list xs / S\<bar>"
    by (simp only: abs_triangle_ineq)
  also have "\<dots> \<le> (unit_roundoff * (x / S) + tiny)
                 + (unit_roundoff * (sum_list xs / S) + real (length xs) * tiny)"
    using 1 2 by (rule add_mono)
  also have "\<dots> = unit_roundoff * (sum_list (x # xs) / S) + real (length (x # xs)) * tiny"
    by (simp add: algebra_simps add_divide_distrib)
  finally show ?case .
qed

lemma f64_divide_by_sum_bound:
  assumes nn: "\<forall>x\<in>set m. 0 \<le> x" and pos: "0 < sum_list m"
    and K: "real (length m) * unit_roundoff \<le> 1 / 2"
    and d: "f64_divide_by_sum m ps"
  shows "\<bar>sum_list ps - 1\<bar>
           \<le> 2 * real (length m) * unit_roundoff + real (length m) * tiny"
proof -
  let ?u = unit_roundoff and ?T = "sum_list m"
  define a where "a = real (length m) * ?u"
  define n where "n = length m - 1"
  from d obtain S where S: "f64_sum m S" and ps: "list_all2 (\<lambda>x p. rounds (x / S) p) m ps"
    unfolding f64_divide_by_sum_def by blast
  from f64_sum_bounds[OF S nn] have ne: "m \<noteq> []"
    and lo: "(1 - ?u) ^ n * ?T \<le> S" and hi: "S \<le> (1 + ?u) ^ n * ?T"
    unfolding n_def by simp_all
  have u: "0 < ?u" "?u < 1" by (rule unit_roundoff_bounds)+
  have len: "real (length m) = real n + 1"
    using ne unfolding n_def by (cases m) simp_all
  have a: "a = real n * ?u + ?u" "0 \<le> a" "a \<le> 1 / 2" "?u \<le> a"
    using K u(1) unfolding a_def len by (simp_all add: algebra_simps)
  define c where "c = 1 - real n * ?u"
  have c1: "c = 1 - a + ?u" unfolding c_def a(1) by simp
  have c2: "0 < c" using a(3) u(1) unfolding c1 by linarith
  note c = c1 c2
  have bern: "c \<le> (1 - ?u) ^ n"
    using Bernoulli_inequality[of "- ?u" n] u unfolding c_def by simp
  have "((1 + ?u) * (1 - ?u)) ^ n \<le> 1"
    using u by (intro power_le_one mult_nonneg_nonneg) (simp_all add: algebra_simps)
  then have prod: "(1 + ?u) ^ n * (1 - ?u) ^ n \<le> 1"
    by (simp add: power_mult_distrib)
  have Pc: "(1 + ?u) ^ n * c \<le> 1"
  proof -
    have "(1 + ?u) ^ n * c \<le> (1 + ?u) ^ n * (1 - ?u) ^ n"
      using bern u by (intro mult_left_mono) simp_all
    with prod show ?thesis by linarith
  qed
  have Spos: "0 < S"
  proof -
    have "0 < c * ?T" using c(2) pos by simp
    moreover have "c * ?T \<le> (1 - ?u) ^ n * ?T"
      using bern pos by (intro mult_right_mono) simp_all
    ultimately show ?thesis using lo by linarith
  qed
  have cS: "c * ?T \<le> S"
  proof -
    have "c * ?T \<le> (1 - ?u) ^ n * ?T"
      using bern pos by (intro mult_right_mono) simp_all
    with lo show ?thesis by linarith
  qed
  have up1: "1 + ?u \<le> (1 + 2 * a) * c"
  proof -
    have "0 \<le> a * (1 - 2 * a + 2 * ?u)"
      using a u by (intro mult_nonneg_nonneg) simp_all
    then show ?thesis unfolding c(1) by (simp add: algebra_simps)
  qed
  have upper: "(1 + ?u) * ?T \<le> (1 + 2 * a) * S"
  proof -
    have "(1 + ?u) * ?T \<le> ((1 + 2 * a) * c) * ?T"
      using up1 pos by (intro mult_right_mono) simp_all
    also have "\<dots> = (1 + 2 * a) * (c * ?T)" by simp
    also have "\<dots> \<le> (1 + 2 * a) * S"
      using cS a by (intro mult_left_mono) simp_all
    finally show ?thesis .
  qed
  have lo1: "1 - 2 * a \<le> (1 - ?u) * c"
  proof -
    have "?u \<le> 1" using u(2) by (rule less_imp_le)
    then have "?u * ?u \<le> 1 * a"
      using u(1) a(4) by (intro mult_mono) simp_all
    moreover have "0 \<le> a * ?u" using a u by simp
    ultimately show ?thesis unfolding c(1) by (simp add: algebra_simps)
  qed
  have lower: "(1 - 2 * a) * S \<le> (1 - ?u) * ?T"
  proof -
    have "(1 - 2 * a) * S \<le> (1 - 2 * a) * ((1 + ?u) ^ n * ?T)"
      using hi a by (intro mult_left_mono) simp_all
    also have "\<dots> = ((1 - 2 * a) * (1 + ?u) ^ n) * ?T" by simp
    also have "\<dots> \<le> (((1 - ?u) * c) * (1 + ?u) ^ n) * ?T"
      using lo1 pos u by (intro mult_right_mono) simp_all
    also have "\<dots> = ((1 - ?u) * ((1 + ?u) ^ n * c)) * ?T" by simp
    also have "\<dots> \<le> ((1 - ?u) * 1) * ?T"
      using Pc pos u by (intro mult_right_mono mult_left_mono) simp_all
    finally show ?thesis by simp
  qed
  define q where "q = ?T / S"
  have q1: "(1 + ?u) * q \<le> 1 + 2 * a"
    using upper Spos unfolding q_def by (simp add: pos_divide_le_eq)
  have q2: "1 - 2 * a \<le> (1 - ?u) * q"
    using lower Spos unfolding q_def by (simp add: pos_le_divide_eq)
  have "\<bar>sum_list ps - q\<bar> \<le> ?u * q + real (length m) * tiny"
    unfolding q_def by (rule rounds_sum[OF ps nn Spos])
  then have "sum_list ps \<le> (1 + ?u) * q + real (length m) * tiny"
    and "(1 - ?u) * q - real (length m) * tiny \<le> sum_list ps"
    by (simp_all add: abs_le_iff algebra_simps)
  with q1 q2 have "\<bar>sum_list ps - 1\<bar> \<le> 2 * a + real (length m) * tiny"
    by (simp add: abs_le_iff)
  then show ?thesis unfolding a_def by simp
qed

lemma f64_uniform_weights_bound:
  assumes "0 < K" "f64_uniform_weights K ps"
  shows "\<bar>sum_list ps - 1\<bar> \<le> unit_roundoff + real K * tiny"
proof -
  from assms(2) obtain p where p: "rounds (1 / real K) p" and ps: "ps = replicate K p"
    unfolding f64_uniform_weights_def by blast
  have "0 \<le> 1 / real K" by simp
  from rounds_nonneg[OF p this] have "\<bar>p - 1 / real K\<bar> \<le> unit_roundoff * (1 / real K) + tiny" .
  then have "real K * \<bar>p - 1 / real K\<bar> \<le> real K * (unit_roundoff * (1 / real K) + tiny)"
    by (intro mult_left_mono) simp_all
  moreover have "real K * \<bar>p - 1 / real K\<bar> = \<bar>real K * p - 1\<bar>"
  proof -
    have "real K * \<bar>p - 1 / real K\<bar> = \<bar>real K * (p - 1 / real K)\<bar>"
      by (simp add: abs_mult)
    also have "real K * (p - 1 / real K) = real K * p - 1"
      using assms(1) by (simp add: right_diff_distrib)
    finally show ?thesis .
  qed
  moreover have "real K * (unit_roundoff * (1 / real K) + tiny) = unit_roundoff + real K * tiny"
    using assms(1) by (simp add: algebra_simps)
  moreover have "sum_list ps = real K * p"
    unfolding ps by (simp add: sum_list_replicate)
  ultimately show ?thesis by simp
qed

lemma f64_sum_exact: "xs \<noteq> [] \<Longrightarrow> f64_sum xs (sum_list xs)"
proof (induction xs)
  case Nil
  then show ?case by simp
next
  case (Cons x xs)
  show ?case
  proof (cases xs)
    case Nil
    then show ?thesis by (simp add: f64_sum.one)
  next
    case (Cons y ys)
    with Cons.IH have "f64_sum xs (sum_list xs)" by simp
    moreover have "rounds_add (x + sum_list xs) (x + sum_list xs)"
      using unit_roundoff_bounds(1) by (simp add: rounds_add_def)
    ultimately have "f64_sum ([x] @ xs) (x + sum_list xs)"
      by (intro f64_sum.add[OF f64_sum.one])
    then show ?thesis by simp
  qed
qed


lemma f64_sum_rel:
  assumes S: "f64_sum xs S" and nn: "\<forall>x\<in>set xs. 0 \<le> x"
    and small: "real (length xs) * unit_roundoff \<le> 1 / 2"
  shows "(1 - real (length xs) * unit_roundoff) * sum_list xs \<le> S"
    and "S \<le> (1 + 2 * real (length xs) * unit_roundoff) * sum_list xs"
    and "0 \<le> S"
proof -
  let ?u = unit_roundoff and ?L = "length xs"
  have u: "0 \<le> 1 - ?u" "1 - ?u \<le> 1" "1 \<le> 1 + ?u"
    using unit_roundoff_bounds by simp_all
  have T: "0 \<le> sum_list xs" using nn by (simp add: sum_list_nonneg)
  from f64_sum_bounds[OF S nn]
  have lo: "(1 - ?u) ^ (?L - 1) * sum_list xs \<le> S"
    and hi: "S \<le> (1 + ?u) ^ (?L - 1) * sum_list xs"
    by simp_all
  have "1 - real ?L * ?u \<le> (1 - ?u) ^ ?L"
    by (rule power_roundoff_bounds(1)[OF small])
  also have "\<dots> \<le> (1 - ?u) ^ (?L - 1)"
    by (rule power_decreasing[OF _ u(1,2)]) simp
  finally have "(1 - real ?L * ?u) * sum_list xs \<le> (1 - ?u) ^ (?L - 1) * sum_list xs"
    using T by (rule mult_right_mono)
  with lo show l: "(1 - real ?L * ?u) * sum_list xs \<le> S" by linarith
  have "(1 + ?u) ^ (?L - 1) \<le> (1 + ?u) ^ ?L"
    by (rule power_increasing[OF _ u(3)]) simp
  also have "\<dots> \<le> 1 + 2 * real ?L * ?u"
    by (rule power_roundoff_bounds(2)[OF small])
  finally have "(1 + ?u) ^ (?L - 1) * sum_list xs \<le> (1 + 2 * real ?L * ?u) * sum_list xs"
    using T by (rule mult_right_mono)
  with hi show "S \<le> (1 + 2 * real ?L * ?u) * sum_list xs" by linarith
  have "0 \<le> (1 - real ?L * ?u) * sum_list xs"
    using small T by (intro mult_nonneg_nonneg) simp_all
  with l show "0 \<le> S" by linarith
qed

lemma f64_divide_by_sum_nonneg:
  assumes d: "f64_divide_by_sum m ps" and nn: "\<forall>x\<in>set m. 0 \<le> x"
    and small: "real (length m) * unit_roundoff \<le> 1 / 2"
  shows "\<forall>p\<in>set ps. 0 \<le> p" and "length ps = length m"
proof -
  from d obtain S where S: "f64_sum m S" and ps: "list_all2 (\<lambda>x p. rounds (x / S) p) m ps"
    unfolding f64_divide_by_sum_def by blast
  show len: "length ps = length m" using ps by (simp add: list_all2_lengthD)
  have S0: "0 \<le> S" by (rule f64_sum_rel(3)[OF S nn small])
  show "\<forall>p\<in>set ps. 0 \<le> p"
  proof
    fix p assume "p \<in> set ps"
    then obtain i where i: "i < length ps" "p = ps ! i" by (auto simp: in_set_conv_nth)
    with len have "0 \<le> m ! i" using nn by simp
    then have "0 \<le> m ! i / S" using S0 by simp
    moreover have "rounds (m ! i / S) (ps ! i)"
      using list_all2_nthD2[OF ps i(1)] .
    ultimately show "0 \<le> p" unfolding i(2) rounds_def by simp
  qed
qed

lemma tolerance_chain:
  fixes x y e R M S N :: real
  assumes x: "0 \<le> x" and y: "0 \<le> y" and xy: "x + y \<le> 1 / 8"
    and e: "0 \<le> e" "e \<le> 1 / 2" and N: "0 \<le> N"
    and R: "(1 - e) * N \<le> R" "R \<le> (1 + e) * N"
    and M: "(1 - y) * R \<le> M" "M \<le> (1 + 2 * y) * R"
    and S: "(1 - x) * M \<le> S" "S \<le> (1 + 2 * x) * M"
  shows "\<bar>S - N\<bar> \<le> N * (3 * (x + y) + 2 * e)"
proof -
  have R0: "0 \<le> R"
  proof -
    have "0 \<le> (1 - e) * N" using e N by (intro mult_nonneg_nonneg) simp_all
    with R(1) show ?thesis by linarith
  qed
  have M0: "0 \<le> M"
  proof -
    have "0 \<le> (1 - y) * R" using y xy x R0 by (intro mult_nonneg_nonneg) simp_all
    with M(1) show ?thesis by linarith
  qed
  have xy0: "0 \<le> x * y" using x y by simp
  have "x * y \<le> (1 / 8) * (1 / 8)"
    using x y xy by (intro mult_mono) simp_all
  then have xys: "4 * (x * y) \<le> x + y + 1" using x y by simp
  have xyl: "4 * (x * y) \<le> x + y"
  proof -
    have "x * y \<le> x * (1 / 8)" using x y xy by (intro mult_left_mono) simp_all
    moreover have "x * y \<le> (1 / 8) * y" using x y xy by (intro mult_right_mono) simp_all
    ultimately show ?thesis using xy0 by linarith
  qed
  have "S \<le> (1 + 2 * x) * M" by (rule S(2))
  also have "\<dots> \<le> (1 + 2 * x) * ((1 + 2 * y) * R)"
    using M(2) x by (intro mult_left_mono) simp_all
  also have "\<dots> = (1 + 2 * (x + y) + 4 * (x * y)) * R" by (simp add: algebra_simps)
  also have "\<dots> \<le> (1 + 3 * (x + y)) * R"
    using xyl R0 by (intro mult_right_mono) simp_all
  also have "\<dots> \<le> (1 + 3 * (x + y)) * ((1 + e) * N)"
    using R(2) x y by (intro mult_left_mono) simp_all
  also have "\<dots> = (1 + 3 * (x + y) + e + 3 * (x + y) * e) * N" by (simp add: algebra_simps)
  also have "\<dots> \<le> (1 + 3 * (x + y) + e + 1 * e) * N"
  proof -
    have "3 * (x + y) * e \<le> 1 * e" using xy e(1) by (intro mult_right_mono) simp_all
    then show ?thesis using N by (intro mult_right_mono) simp_all
  qed
  finally have up: "S \<le> (1 + (3 * (x + y) + 2 * e)) * N" by (simp add: algebra_simps)
  have "(1 - (x + y) - e) * N \<le> (1 - (x + y) - e + (x + y) * e) * N"
    using x y e(1) N by (intro mult_right_mono) simp_all
  also have "\<dots> = (1 - (x + y)) * ((1 - e) * N)" by (simp add: algebra_simps)
  also have "\<dots> \<le> (1 - (x + y)) * R"
    using R(1) xy by (intro mult_left_mono) simp_all
  also have "\<dots> \<le> (1 - (x + y) + x * y) * R"
    using xy0 R0 by (intro mult_right_mono) simp_all
  also have "\<dots> = (1 - x) * ((1 - y) * R)" by (simp add: algebra_simps)
  also have "\<dots> \<le> (1 - x) * M"
    using M(1) x y xy by (intro mult_left_mono) simp_all
  also have "\<dots> \<le> S" by (rule S(1))
  finally have lo: "(1 - (x + y) - e) * N \<le> S" .
  have "0 \<le> (2 * (x + y) + e) * N" using x y e(1) N by (intro mult_nonneg_nonneg) simp_all
  then have "(1 - (3 * (x + y) + 2 * e)) * N \<le> (1 - (x + y) - e) * N"
    by (simp add: algebra_simps)
  with lo have "(1 - (3 * (x + y) + 2 * e)) * N \<le> S" by linarith
  with up show ?thesis by (simp add: abs_le_iff algebra_simps)
qed

lemma f64_expectation_step_bounds:
  assumes es: "f64_expectation_step w r m_c ps"
    and ne: "w \<noteq> []"
    and nn: "\<forall>row\<in>set w. (\<forall>x\<in>set row. 0 \<le> x) \<and> 0 < sum_list row"
    and small: "real (length w + length m_c) * unit_roundoff \<le> 1 / 8"
  shows "\<forall>row\<in>set r. \<bar>sum_list row - 1\<bar>
            \<le> 2 * real (length m_c) * unit_roundoff + real (length m_c) * tiny"
    and "\<bar>sum_list ps - 1\<bar>
            \<le> 2 * real (length m_c) * unit_roundoff + real (length m_c) * tiny"
    and "\<forall>S. f64_sum m_c S \<longrightarrow>
           \<bar>S - real (length w)\<bar>
             \<le> real (length w) * (7 * real (length w + length m_c) * unit_roundoff
                                    + 2 * real (length m_c) * tiny)"
proof -
  let ?u = unit_roundoff
  define K where "K = length m_c"
  define N where "N = length w"
  define e where "e = 2 * real K * ?u + real K * tiny"
  have u: "0 < ?u" by (rule unit_roundoff_bounds)
  from es have shape: "\<forall>row\<in>set w. length row = K"
    and wr: "list_all2 f64_divide_by_sum w r"
    and cols: "list_all2 (\<lambda>k m. f64_sum (map (\<lambda>row. row ! k) r) m) [0..<K] m_c"
    and d: "f64_divide_by_sum m_c ps"
    unfolding f64_expectation_step_def K_def by (simp_all add: list_all_iff)
  have lr: "length r = N" using wr unfolding N_def by (simp add: list_all2_lengthD)
  have N1: "1 \<le> real N" using ne unfolding N_def by (cases w) simp_all
  have small': "real N * ?u + real K * ?u \<le> 1 / 8"
    using small unfolding N_def K_def by (simp add: algebra_simps)
  have K0: "0 \<le> real K * ?u" and N0': "0 \<le> real N * ?u"
    using u by simp_all
  have Ku: "0 \<le> real K * ?u" "real K * ?u \<le> 1 / 2" "real K * ?u \<le> 1 / 8"
    and Nu: "0 \<le> real N * ?u" "real N * ?u \<le> 1 / 2"
    using small' K0 N0' by linarith+
  have Kt: "0 \<le> real K * tiny" "real K * tiny \<le> real K * ?u"
    using tiny_pos tiny_le_unit_roundoff by (simp_all add: mult_left_mono)
  have e: "0 \<le> e" "e \<le> 1 / 2" using Ku Kt unfolding e_def by simp_all
  have row: "length (r ! n) = K \<and> (\<forall>p\<in>set (r ! n). 0 \<le> p) \<and> \<bar>sum_list (r ! n) - 1\<bar> \<le> e"
    if n: "n < N" for n
  proof -
    have dn: "f64_divide_by_sum (w ! n) (r ! n)"
      using list_all2_nthD[OF wr] n unfolding N_def by simp
    have mem: "w ! n \<in> set w" using n unfolding N_def by simp
    with nn shape have wn: "\<forall>x\<in>set (w ! n). 0 \<le> x" "0 < sum_list (w ! n)" "length (w ! n) = K"
      by simp_all
    have sm: "real (length (w ! n)) * ?u \<le> 1 / 2" unfolding wn(3) by (rule Ku(2))
    from f64_divide_by_sum_nonneg[OF dn wn(1) sm] f64_divide_by_sum_bound[OF wn(1,2) sm dn]
    show ?thesis unfolding wn(3) e_def by simp
  qed
  show "\<forall>row\<in>set r. \<bar>sum_list row - 1\<bar>
            \<le> 2 * real (length m_c) * unit_roundoff + real (length m_c) * tiny"
    using row lr unfolding e_def K_def by (auto simp: in_set_conv_nth)
  define C where "C k = (\<Sum>n = 0..<N. r ! n ! k)" for k
  define R where "R = (\<Sum>n = 0..<N. sum_list (r ! n))"
  have lm: "length m_c = K" by (simp add: K_def)
  have col: "(1 - real N * ?u) * C k \<le> m_c ! k \<and> m_c ! k \<le> (1 + 2 * real N * ?u) * C k
             \<and> 0 \<le> m_c ! k"
    if k: "k < K" for k
  proof -
    let ?col = "map (\<lambda>row. row ! k) r"
    have "f64_sum (map (\<lambda>row. row ! ([0..<K] ! k)) r) (m_c ! k)"
      using list_all2_nthD[OF cols, of k] k by simp
    then have s: "f64_sum ?col (m_c ! k)" using k by simp
    have cn: "\<forall>x\<in>set ?col. 0 \<le> x"
    proof
      fix x assume "x \<in> set ?col"
      then obtain n where n: "n < N" "x = r ! n ! k"
        using lr by (auto simp: in_set_conv_nth)
      from row[OF n(1)] k have "r ! n ! k \<in> set (r ! n)" by simp
      with row[OF n(1)] show "0 \<le> x" unfolding n(2) by blast
    qed
    have lc: "length ?col = N" by (simp add: lr)
    have sm: "real (length ?col) * ?u \<le> 1 / 2" unfolding lc by (rule Nu(2))
    have Ck: "sum_list ?col = C k"
      unfolding C_def by (simp add: sum_list_sum_nth lr)
    from f64_sum_rel[OF s cn sm] show ?thesis unfolding lc Ck by simp
  qed
  have RC: "(\<Sum>k = 0..<K. C k) = R"
  proof -
    have "(\<Sum>k = 0..<K. C k) = (\<Sum>n = 0..<N. \<Sum>k = 0..<K. r ! n ! k)"
      unfolding C_def by (rule sum.swap)
    also have "\<dots> = R"
      unfolding R_def using row by (intro sum.cong) (simp_all add: sum_list_sum_nth)
    finally show ?thesis .
  qed
  define M where "M = sum_list m_c"
  have Msum: "M = (\<Sum>k = 0..<K. m_c ! k)"
    unfolding M_def by (simp add: sum_list_sum_nth lm)
  have M1: "(1 - real N * ?u) * R \<le> M"
  proof -
    have "(1 - real N * ?u) * R = (\<Sum>k = 0..<K. (1 - real N * ?u) * C k)"
      unfolding RC[symmetric] by (rule sum_distrib_left)
    also have "\<dots> \<le> (\<Sum>k = 0..<K. m_c ! k)"
      using col by (intro sum_mono) simp
    finally show ?thesis unfolding Msum .
  qed
  have M2: "M \<le> (1 + 2 * real N * ?u) * R"
  proof -
    have "(\<Sum>k = 0..<K. m_c ! k) \<le> (\<Sum>k = 0..<K. (1 + 2 * real N * ?u) * C k)"
      using col by (intro sum_mono) simp
    also have "\<dots> = (1 + 2 * real N * ?u) * R"
      unfolding RC[symmetric] by (rule sum_distrib_left[symmetric])
    finally show ?thesis unfolding Msum .
  qed
  have rowb: "1 - e \<le> sum_list (r ! n)" "sum_list (r ! n) \<le> 1 + e" if "n < N" for n
    using row[OF that] by (simp_all add: abs_le_iff)
  have R1: "(1 - e) * real N \<le> R"
  proof -
    have "(\<Sum>n = 0..<N. 1 - e) \<le> R"
      unfolding R_def using rowb by (intro sum_mono) simp
    then show ?thesis by (simp add: algebra_simps)
  qed
  have R2: "R \<le> (1 + e) * real N"
  proof -
    have "R \<le> (\<Sum>n = 0..<N. 1 + e)"
      unfolding R_def using rowb by (intro sum_mono) simp
    then show ?thesis by (simp add: algebra_simps)
  qed
  have Rpos: "0 < R"
  proof -
    have "0 < (1 - e) * real N" using e N1 by simp
    with R1 show ?thesis by linarith
  qed
  have Mpos: "0 < M"
  proof -
    have "0 < (1 - real N * ?u) * R" using Nu Rpos by simp
    with M1 show ?thesis by linarith
  qed
  have mnn: "\<forall>x\<in>set m_c. 0 \<le> x"
    using col lm by (auto simp: in_set_conv_nth)
  have smK: "real (length m_c) * ?u \<le> 1 / 2" unfolding lm by (rule Ku(2))
  show "\<bar>sum_list ps - 1\<bar>
            \<le> 2 * real (length m_c) * unit_roundoff + real (length m_c) * tiny"
    by (rule f64_divide_by_sum_bound[OF mnn Mpos[unfolded M_def] smK d])
  show "\<forall>S. f64_sum m_c S \<longrightarrow>
           \<bar>S - real (length w)\<bar>
             \<le> real (length w) * (7 * real (length w + length m_c) * unit_roundoff
                                    + 2 * real (length m_c) * tiny)"
  proof (intro allI impI)
    fix S assume S: "f64_sum m_c S"
    from f64_sum_rel(1,2)[OF S mnn smK]
    have S1: "(1 - real K * ?u) * M \<le> S" and S2: "S \<le> (1 + 2 * (real K * ?u)) * M"
      unfolding lm M_def by (simp_all add: mult.assoc)
    have M2': "M \<le> (1 + 2 * (real N * ?u)) * R" using M2 by (simp add: mult.assoc)
    have xy: "real K * ?u + real N * ?u \<le> 1 / 8" using small' by simp
    have N0: "0 \<le> real N" by simp
    from tolerance_chain[OF Ku(1) Nu(1) xy e N0 R1 R2 M1 M2' S1 S2]
    have "\<bar>S - real N\<bar> \<le> real N * (3 * (real K * ?u + real N * ?u) + 2 * e)" .
    also have "\<dots> \<le> real N * (7 * real (N + K) * ?u + 2 * real K * tiny)"
    proof (rule mult_left_mono[OF _ N0])
      show "3 * (real K * ?u + real N * ?u) + 2 * e \<le> 7 * real (N + K) * ?u + 2 * real K * tiny"
        unfolding e_def using Ku(1) Nu(1) by (simp add: algebra_simps)
    qed
    finally show "\<bar>S - real (length w)\<bar>
             \<le> real (length w) * (7 * real (length w + length m_c) * unit_roundoff
                                    + 2 * real (length m_c) * tiny)"
      unfolding N_def K_def .
  qed
qed


text \<open>
  A run in float64: two points, two components, weights \<open>(1, 1)\<close> and \<open>(1, 2)\<close>. The
  values are the float64 numbers numpy computes; the sum of the effective counts is
  \<open>2 - 2^-52\<close> and not \<open>2\<close>.
\<close>

lemma f64_sum_pair: "rounds_add (x + y) s \<Longrightarrow> f64_sum [x, y] s"
  using f64_sum.add[OF f64_sum.one[of x] f64_sum.one[of y], of s] by simp

lemma f64_example_run:
  "f64_expectation_step [[1, 1], [1, 2]]
     [[1 / 2, 1 / 2], [6004799503160661 / 18014398509481984, 6004799503160661 / 9007199254740992]]
     [3752999689475413 / 4503599627370496, 2627099782632789 / 2251799813685248]
     [7505999378950827 / 18014398509481984, 5254199565265579 / 9007199254740992]"
  "f64_sum [3752999689475413 / 4503599627370496, 2627099782632789 / 2251799813685248]
     (9007199254740991 / 4503599627370496)"
proof -
  have r1: "f64_divide_by_sum [1, 1] [1 / 2, 1 / 2]"
    unfolding f64_divide_by_sum_def
    by (rule exI[of _ 2])
       (simp add: f64_sum_pair rounds_add_def roundsI unit_roundoff_def)
  have r2: "f64_divide_by_sum [1, 2]
              [6004799503160661 / 18014398509481984, 6004799503160661 / 9007199254740992]"
    unfolding f64_divide_by_sum_def
    by (rule exI[of _ 3])
       (simp add: f64_sum_pair rounds_add_def roundsI unit_roundoff_def)
  have c0: "f64_sum [1 / 2, 6004799503160661 / 18014398509481984]
              (3752999689475413 / 4503599627370496)"
    by (rule f64_sum_pair) (simp add: rounds_add_def unit_roundoff_def)
  have c1: "f64_sum [1 / 2, 6004799503160661 / 9007199254740992]
              (2627099782632789 / 2251799813685248)"
    by (rule f64_sum_pair) (simp add: rounds_add_def unit_roundoff_def)
  show S: "f64_sum [3752999689475413 / 4503599627370496, 2627099782632789 / 2251799813685248]
     (9007199254740991 / 4503599627370496)"
    by (rule f64_sum_pair) (simp add: rounds_add_def unit_roundoff_def)
  have d: "f64_divide_by_sum
             [3752999689475413 / 4503599627370496, 2627099782632789 / 2251799813685248]
             [7505999378950827 / 18014398509481984, 5254199565265579 / 9007199254740992]"
    unfolding f64_divide_by_sum_def
    by (rule exI[of _ "9007199254740991 / 4503599627370496"])
       (simp add: S roundsI unit_roundoff_def)
  have upt2: "[0..<2] = [0, Suc 0]" by (simp add: upt_rec)
  show "f64_expectation_step [[1, 1], [1, 2]]
     [[1 / 2, 1 / 2], [6004799503160661 / 18014398509481984, 6004799503160661 / 9007199254740992]]
     [3752999689475413 / 4503599627370496, 2627099782632789 / 2251799813685248]
     [7505999378950827 / 18014398509481984, 5254199565265579 / 9007199254740992]"
    unfolding f64_expectation_step_def
    by (simp add: r1 r2 c0 c1 d upt2)
qed

lemma f64_example_uniform:
  "f64_uniform_weights 3 [6004799503160661 / 18014398509481984,
     6004799503160661 / 18014398509481984, 6004799503160661 / 18014398509481984]"
  unfolding f64_uniform_weights_def
  by (rule exI[of _ "6004799503160661 / 18014398509481984"])
     (simp add: roundsI unit_roundoff_def numeral_3_eq_3)

text \<open>
  The relation admits the exact evaluation: where the weights are finite and no row sums
  to zero, what \<open>expectation_step\<close> returns is one of the results \<open>f64_expectation_step\<close>
  allows, the one in which no operation rounds.
\<close>

lemma f64_divide_by_sum_exact:
  "m \<noteq> [] \<Longrightarrow> f64_divide_by_sum m (map (\<lambda>x. x / sum_list m) m)"
proof -
  assume "m \<noteq> []"
  then have "f64_sum m (sum_list m)" by (rule f64_sum_exact)
  moreover have "rounds x x" for x
    using unit_roundoff_bounds(1) tiny_pos by (simp add: rounds_def max_def)
  then have "list_all2 (\<lambda>x p. rounds (x / sum_list m) p) m (map (\<lambda>x. x / sum_list m) m)"
    by (simp add: list_all2_conv_all_nth)
  ultimately show ?thesis unfolding f64_divide_by_sum_def by blast
qed

lemma expectation_step_admitted:
  assumes K: "length mu = length pis" "length cov = length pis" "pis \<noteq> []"
    and dens: "\<forall>k<length pis. pdf (mu ! k) (cov ! k) data = Inr (dens k)
                 \<and> length (dens k) = length data"
    and N: "length data \<noteq> 1" "data \<noteq> []"
    and w: "length w = length data"
      "\<forall>n<length data. length (w ! n) = length pis
          \<and> (\<forall>k<length pis. pis ! k * dens k ! n = Fin (w ! n ! k))"
    and nz: "\<forall>row\<in>set w. sum_list row \<noteq> 0"
  shows "\<exists>r m ps. expectation_step pdf data mu cov pis =
                     Inr (map (map Fin) r, map Fin m, map Fin ps)
                 \<and> f64_expectation_step w r m ps"
proof -
  let ?K = "length pis" and ?N = "length data"
  define r where "r = map (\<lambda>row. map (\<lambda>x. x / sum_list row) row) w"
  define m where "m = map (\<lambda>k. sum_list (map (\<lambda>row. row ! k) r)) [0..<?K]"
  define ps where "ps = map (\<lambda>x. x / sum_list m) m"
  have lr: "length r = ?N" by (simp add: r_def w(1))
  have lm: "length m = ?K" by (simp add: m_def)
  have wne: "w \<noteq> []" using N(2) w(1) by auto
  have rows: "length row = ?K" if "row \<in> set w" for row
    using that w by (auto simp: in_set_conv_nth)
  have rne: "row \<noteq> []" if "row \<in> set w" for row
    using rows[OF that] K(3) by auto
  have rn: "r ! n = map (\<lambda>x. x / sum_list (w ! n)) (w ! n)" if "n < ?N" for n
    using that by (simp add: r_def w(1))
  have f1: "list_all (\<lambda>row. length row = length m) w"
    using rows by (simp add: list_all_iff lm)
  have f2: "list_all2 f64_divide_by_sum w r"
    unfolding list_all2_conv_all_nth
  proof (intro conjI allI impI)
    show "length w = length r" by (simp add: lr w(1))
    fix n assume n: "n < length w"
    then have "w ! n \<in> set w" by simp
    from f64_divide_by_sum_exact[OF rne[OF this]] n
    show "f64_divide_by_sum (w ! n) (r ! n)" by (simp add: r_def)
  qed
  have rnonempty: "r \<noteq> []" using wne by (simp add: r_def)
  have f3: "list_all2 (\<lambda>k m. f64_sum (map (\<lambda>row. row ! k) r) m) [0..<length m] m"
    unfolding list_all2_conv_all_nth
  proof (intro conjI allI impI)
    show "length [0..<length m] = length m" by simp
    fix k assume "k < length [0..<length m]"
    then have k: "k < ?K" by (simp add: lm)
    have "f64_sum (map (\<lambda>row. row ! k) r) (sum_list (map (\<lambda>row. row ! k) r))"
      using rnonempty by (intro f64_sum_exact) simp
    then show "f64_sum (map (\<lambda>row. row ! ([0..<length m] ! k)) r) (m ! k)"
      using k by (simp add: lm m_def)
  qed
  have mne: "m \<noteq> []" using K(3) lm by auto
  have f4: "f64_divide_by_sum m ps"
    unfolding ps_def by (rule f64_divide_by_sum_exact[OF mne])
  have f: "f64_expectation_step w r m ps"
    unfolding f64_expectation_step_def using f1 f2 f3 f4 by blast
  have wrow: "map (\<lambda>j. pis ! j * dens j ! n) [0..<?K] = map Fin (w ! n)" if n: "n < ?N" for n
  proof (rule nth_equalityI)
    show "length (map (\<lambda>j. pis ! j * dens j ! n) [0..<?K]) = length (map Fin (w ! n))"
      using w(2) n by simp
  next
    fix j assume "j < length (map (\<lambda>j. pis ! j * dens j ! n) [0..<?K])"
    then have "j < ?K" by simp
    then show "map (\<lambda>j. pis ! j * dens j ! n) [0..<?K] ! j = map Fin (w ! n) ! j"
      using w(2) n by simp
  qed
  have nzn: "sum_list (w ! n) \<noteq> 0" if "n < ?N" for n
    using nz that w(1) by simp
  have req: "map (map Fin) r = map (\<lambda>n. map (\<lambda>k. pis ! k * dens k ! n /
                       sum_list (map (\<lambda>j. pis ! j * dens j ! n) [0..<?K]))
                     [0..<?K]) [0..<?N]"
  proof (rule nth_equalityI)
    show "length (map (map Fin) r) = length (map (\<lambda>n. map (\<lambda>k. pis ! k * dens k ! n /
                       sum_list (map (\<lambda>j. pis ! j * dens j ! n) [0..<?K]))
                     [0..<?K]) [0..<?N])"
      by (simp add: lr)
  next
    fix n assume "n < length (map (map Fin) r)"
    then have n: "n < ?N" by (simp add: lr)
    have lwn: "length (w ! n) = ?K" using w(2) n by simp
    have "map Fin (r ! n) = map (\<lambda>k. pis ! k * dens k ! n /
                       sum_list (map (\<lambda>j. pis ! j * dens j ! n) [0..<?K])) [0..<?K]"
    proof (rule nth_equalityI)
      show "length (map Fin (r ! n)) = length (map (\<lambda>k. pis ! k * dens k ! n /
                       sum_list (map (\<lambda>j. pis ! j * dens j ! n) [0..<?K])) [0..<?K])"
        by (simp add: rn[OF n] lwn)
    next
      fix k assume "k < length (map Fin (r ! n))"
      then have k: "k < ?K" by (simp add: rn[OF n] lwn)
      have "pis ! k * dens k ! n = Fin (w ! n ! k)" using w(2) n k by simp
      then show "map Fin (r ! n) ! k = map (\<lambda>k. pis ! k * dens k ! n /
                       sum_list (map (\<lambda>j. pis ! j * dens j ! n) [0..<?K])) [0..<?K] ! k"
        using k nzn[OF n] by (simp add: rn[OF n] lwn wrow[OF n] sum_list_Fin)
    qed
    then show "map (map Fin) r ! n = map (\<lambda>n. map (\<lambda>k. pis ! k * dens k ! n /
                       sum_list (map (\<lambda>j. pis ! j * dens j ! n) [0..<?K]))
                     [0..<?K]) [0..<?N] ! n"
      using n by (simp add: lr)
  qed
  have meq: "map Fin m = map (\<lambda>k. sum_list (map (\<lambda>n. map (map Fin) r ! n ! k) [0..<?N]))
                      [0..<?K]"
  proof (rule nth_equalityI)
    show "length (map Fin m) = length (map (\<lambda>k. sum_list (map (\<lambda>n. map (map Fin) r ! n ! k)
              [0..<?N])) [0..<?K])"
      by (simp add: lm)
  next
    fix k assume "k < length (map Fin m)"
    then have k: "k < ?K" by (simp add: lm)
    have c1: "map (\<lambda>n. map (map Fin) r ! n ! k) [0..<?N] =
                map Fin (map (\<lambda>n. r ! n ! k) [0..<?N])"
      using k w(2) by (simp add: lr rn)
    have c2: "map (\<lambda>row. row ! k) r = map (\<lambda>n. r ! n ! k) [0..<?N]"
      using map_index[of "\<lambda>row. row ! k" r] by (simp add: lr)
    have "sum_list (map (\<lambda>n. map (map Fin) r ! n ! k) [0..<?N]) =
            Fin (sum_list (map (\<lambda>row. row ! k) r))"
      unfolding c1 c2 by (rule sum_list_Fin)
    then show "map Fin m ! k = map (\<lambda>k. sum_list (map (\<lambda>n. map (map Fin) r ! n ! k)
              [0..<?N])) [0..<?K] ! k"
      using k by (simp add: m_def)
  qed
  have es: "expectation_step pdf data mu cov pis =
              Inr (map (map Fin) r, map Fin m, map (\<lambda>x. x / sum_list (map Fin m)) (map Fin m))"
    by (rule expectation_step_eq[where dens = dens and pdf = pdf and data = data,
          OF K dens N(1) req meq])
  have fin: "\<forall>n<?N. \<forall>k<?K. is_fin (pis ! k * dens k ! n)"
    using w(2) by simp
  have nz': "\<forall>n<?N. sum_list (map (\<lambda>j. pis ! j * dens j ! n) [0..<?K]) \<noteq> Fin 0"
    using nzn by (simp add: wrow sum_list_Fin)
  from expectation_step_normalized(1)[where dens = dens and pdf = pdf and data = data,
      OF K dens fin nz' es]
  have "sum_list m = real ?N" by (simp add: sum_list_Fin)
  then have "sum_list m \<noteq> 0" using N(2) by simp
  then have "map (\<lambda>x. x / sum_list (map Fin m)) (map Fin m) = map Fin ps"
    by (simp add: ps_def sum_list_Fin)
  with es f show ?thesis by auto
qed

section \<open>The properties of the specification\<close>

text \<open>
  C1, as the code has it. A call that terminates, by the early stop or by exhausting
  \<open>max_iter\<close>, returns the AIC trajectory and nothing else; the trajectory has one entry
  per executed iteration, at most \<open>max_iter\<close> of them and exactly \<open>max_iter\<close> when the loop
  was exhausted. The final mixture parameters stay in the local variables.
\<close>

theorem run_returns_trajectory:
  assumes "em_run pdf data max_iter pi0 mu0 cov0 threshold = Inr s"
  shows "run_em_algorithm pdf data max_iter pi0 mu0 cov0 threshold = Inr (aic_list s)
         \<and> length (aic_list s) = executed s \<and> executed s \<le> nat max_iter
         \<and> (last (printed s) = Terminating_early threshold
            \<or> last (printed s) = Did_not_converge max_iter \<and> executed s = nat max_iter)"
  using em_run_result[OF assms] assms by (auto simp: run_em_algorithm_def split: if_splits)

text \<open>The early stopped fit on the square returns the four entries of its four iterations.\<close>

theorem run_returns_trajectory_witness:
  "\<exists>s. em_run mvn_pdf2 (square_data 0) 200 [Fin 1] (square_mean 0) [eye 2] (Fin (1 / 10)) = Inr s
       \<and> run_em_algorithm mvn_pdf2 (square_data 0) 200 [Fin 1] (square_mean 0) [eye 2]
             (Fin (1 / 10)) = Inr (aic_list s)
       \<and> length (aic_list s) = executed s \<and> executed s = 4"
proof -
  from square_run obtain s where
    run: "em_run mvn_pdf2 (square_data 0) 200 [Fin 1] (square_mean 0) [eye 2] (Fin (1 / 10)) = Inr s"
    and four: "length (aic_list s) = 4"
    by blast
  from run_returns_trajectory[OF run] run four show ?thesis by auto
qed

text \<open>
  C1 as the specification states it fails. Two calls of one iteration, on the square at
  the origin and on the square moved one unit to the right, return the same value, a
  trajectory of one AIC, while their final means are \<open>(1, 1)\<close> and \<open>(2, 1)\<close>: the returned
  value does not hold the final parameters.
\<close>

theorem final_parameters_not_returned:
  "run_em_algorithm mvn_pdf2 (square_data 0) 1 [Fin 1] (square_mean 0) [eye 2] (Fin (1 / 10))
     = Inr [Fin square_aic]
   \<and> run_em_algorithm mvn_pdf2 (square_data 1) 1 [Fin 1] (square_mean 1) [eye 2] (Fin (1 / 10))
     = Inr [Fin square_aic]
   \<and> final_parameters mvn_pdf2 (square_data 0) 1 [Fin 1] (square_mean 0) [eye 2] (Fin (1 / 10))
     = Inr ([Fin 1], [[Fin 1, Fin 1]], [eye 2])
   \<and> final_parameters mvn_pdf2 (square_data 1) 1 [Fin 1] (square_mean 1) [eye 2] (Fin (1 / 10))
     = Inr ([Fin 1], [[Fin 2, Fin 1]], [eye 2])"
  by (simp add: run_em_algorithm_def final_parameters_def square_single_run)
     (simp add: square_mean_def)

text \<open>
  C2, as the code has it. The E-step has no floor. Whenever the library density returns
  one value per point for every component: on a dataset of a single point the E-step
  raises before it divides; on every other dataset it returns, and every row of
  responsibilities is the row of weights divided by its sum, whatever that sum is. A point
  whose weights are all zero gets a row of NaN, the value of \<open>0 / 0\<close>.
\<close>

theorem expectation_step_divides_every_row:
  assumes K: "length mu = length pis" "length cov = length pis" "pis \<noteq> []"
    and dens: "\<forall>k<length pis. pdf (mu ! k) (cov ! k) data = Inr (dens k)
                 \<and> length (dens k) = length data"
  shows "(length data = 1 \<longrightarrow> expectation_step pdf data mu cov pis = Inl AxisError)
       \<and> (length data \<noteq> 1 \<longrightarrow>
           (\<exists>r m_c pis'.
               expectation_step pdf data mu cov pis = Inr (r, m_c, pis')
             \<and> length r = length data
             \<and> (\<forall>n<length data.
                   r ! n = map (\<lambda>k. pis ! k * dens k ! n /
                                    sum_list (map (\<lambda>j. pis ! j * dens j ! n) [0..<length pis]))
                             [0..<length pis])
             \<and> (\<forall>n<length data.
                   (\<forall>k<length pis. pis ! k * dens k ! n = Fin 0) \<longrightarrow>
                   r ! n = replicate (length pis) NaN)))"
proof (intro conjI impI)
  assume "length data = 1"
  then show "expectation_step pdf data mu cov pis = Inl AxisError"
    by (rule expectation_step_single[where dens = dens and pdf = pdf and data = data,
          OF K dens])
next
  assume N: "length data \<noteq> 1"
  define r where "r = map (\<lambda>n. map (\<lambda>k. pis ! k * dens k ! n /
                       sum_list (map (\<lambda>j. pis ! j * dens j ! n) [0..<length pis]))
                     [0..<length pis]) [0..<length data]"
  define m_c where "m_c = map (\<lambda>k. sum_list (map (\<lambda>n. r ! n ! k) [0..<length data]))
                    [0..<length pis]"
  have es: "expectation_step pdf data mu cov pis =
              Inr (r, m_c, map (\<lambda>m. m / sum_list m_c) m_c)"
    by (rule expectation_step_eq[where dens = dens and pdf = pdf and data = data,
          OF K dens N r_def m_c_def])
  have lr: "length r = length data" by (simp add: r_def)
  have row: "r ! n = map (\<lambda>k. pis ! k * dens k ! n /
                                sum_list (map (\<lambda>j. pis ! j * dens j ! n) [0..<length pis]))
                         [0..<length pis]"
    if "n < length data" for n
    using that by (simp add: r_def)
  have zero: "r ! n = replicate (length pis) NaN"
    if n: "n < length data" and z: "\<forall>k<length pis. pis ! k * dens k ! n = Fin 0" for n
  proof -
    have s: "sum_list (map (\<lambda>j. pis ! j * dens j ! n) [0..<length pis]) = Fin 0"
      using z by (intro sum_list_all_zero) auto
    have "r ! n = map (\<lambda>k. NaN) [0..<length pis]"
      unfolding row[OF n] s using z by (intro map_cong) simp_all
    then show ?thesis by (simp add: map_replicate_const)
  qed
  from es lr row zero show "\<exists>r m_c pis'.
               expectation_step pdf data mu cov pis = Inr (r, m_c, pis')
             \<and> length r = length data
             \<and> (\<forall>n<length data.
                   r ! n = map (\<lambda>k. pis ! k * dens k ! n /
                                    sum_list (map (\<lambda>j. pis ! j * dens j ! n) [0..<length pis]))
                             [0..<length pis])
             \<and> (\<forall>n<length data.
                   (\<forall>k<length pis. pis ! k * dens k ! n = Fin 0) \<longrightarrow>
                   r ! n = replicate (length pis) NaN)"
    by blast
qed

text \<open>
  The second point of the far dataset has weight zero and gets the row \<open>[NaN]\<close>; on the
  single point at the origin the E-step raises.
\<close>

theorem expectation_step_divides_every_row_witness:
  "mvn_pdf2 [Fin 0, Fin 0] (eye 2) far_data = Inr [Fin (1 / (2 * pi)), Fin 0]
   \<and> Fin 1 * [Fin (1 / (2 * pi)), Fin 0] ! 1 = Fin 0
   \<and> (\<exists>r m_c pis'.
         expectation_step mvn_pdf2 far_data [[Fin 0, Fin 0]] [eye 2] [Fin 1] = Inr (r, m_c, pis')
       \<and> r ! 1 = replicate (length [Fin 1::npfloat]) NaN)
   \<and> mvn_pdf2 [Fin 0, Fin 0] (eye 2) [[Fin 0, Fin 0]] = Inr [Fin (1 / (2 * pi))]
   \<and> expectation_step mvn_pdf2 [[Fin 0, Fin 0]] [[Fin 0, Fin 0]] [eye 2] [Fin 1] = Inl AxisError"
proof -
  let ?d = "\<lambda>k::nat. [Fin (1 / (2 * pi)), Fin 0]"
  let ?o = "\<lambda>k::nat. [Fin (1 / (2 * pi))]"
  have len: "length far_data = Suc (Suc 0)" by (simp add: far_data_def)
  have d: "\<forall>k<length [Fin 1::npfloat].
       mvn_pdf2 ([[Fin 0, Fin 0]] ! k) ([eye 2] ! k) far_data = Inr (?d k)
       \<and> length (?d k) = length far_data"
    by (simp add: far_pdf len)
  have z: "\<forall>k<length [Fin 1::npfloat]. [Fin 1] ! k * ?d k ! 1 = Fin 0"
    by simp
  have ne: "length far_data \<noteq> 1" by (simp add: len)
  from expectation_step_divides_every_row[of "[[Fin 0, Fin 0]]" "[Fin 1]" "[eye 2]" mvn_pdf2
      far_data ?d, OF _ _ _ d] ne
  obtain r m_c pis' where
    es: "expectation_step mvn_pdf2 far_data [[Fin 0, Fin 0]] [eye 2] [Fin 1] = Inr (r, m_c, pis')"
    and zero: "\<forall>n<length far_data.
               (\<forall>k<length [Fin 1::npfloat]. [Fin 1] ! k * ?d k ! n = Fin 0) \<longrightarrow>
               r ! n = replicate (length [Fin 1::npfloat]) NaN"
    by auto
  have "1 < length far_data" by (simp add: len)
  with zero z have "r ! 1 = replicate (length [Fin 1::npfloat]) NaN" by blast
  with es have far: "\<exists>r m_c pis'.
         expectation_step mvn_pdf2 far_data [[Fin 0, Fin 0]] [eye 2] [Fin 1] = Inr (r, m_c, pis')
       \<and> r ! 1 = replicate (length [Fin 1::npfloat]) NaN"
    by blast
  have o: "\<forall>k<length [Fin 1::npfloat].
       mvn_pdf2 ([[Fin 0, Fin 0]] ! k) ([eye 2] ! k) [[Fin 0, Fin 0]] = Inr (?o k)
       \<and> length (?o k) = length [[Fin 0, Fin 0::npfloat]]"
    by (simp add: origin_pdf)
  from expectation_step_divides_every_row[of "[[Fin 0, Fin 0]]" "[Fin 1]" "[eye 2]" mvn_pdf2
      "[[Fin 0, Fin 0]]" ?o, OF _ _ _ o]
  have single:
    "expectation_step mvn_pdf2 [[Fin 0, Fin 0]] [[Fin 0, Fin 0]] [eye 2] [Fin 1] = Inl AxisError"
    by simp
  from far single show ?thesis by (simp add: far_pdf origin_pdf)
qed

text \<open>
  C2 as the specification states it fails. On the far dataset the weights of the second
  point are all exactly zero; the E-step divides them by their zero sum and returns NaN
  for that row, not a floor value.
\<close>

theorem zero_weight_row_is_divided:
  "weighted_pdfs mvn_pdf2 far_data [[Fin 0, Fin 0]] [eye 2] [Fin 1] =
     Inr [[Fin (1 / (2 * pi)), Fin 0]]
   \<and> expectation_step mvn_pdf2 far_data [[Fin 0, Fin 0]] [eye 2] [Fin 1] =
       Inr ([[Fin 1], [NaN]], [NaN], [NaN])
   \<and> Fin 0 / sum_list [Fin 0] = NaN"
  by (simp add: far_weighted far_expectation zero_npfloat_def)

text \<open>
  C3, as the code has it. The initializer fails for a component count below one: by the
  division \<open>1 / num_components\<close> for zero, by the negative dimension (or an invalid seed)
  otherwise. Nothing else is validated: with \<open>max_iter\<close> below one the fit runs no
  iteration and returns normally, with an empty trajectory and the parameters it was given.
\<close>

theorem invalid_configurations:
  "(num_components = 0 \<longrightarrow> initialize_parameters rand num_components seed = Inl ZeroDivisionError)
   \<and> (num_components < 0 \<longrightarrow> initialize_parameters rand num_components seed = Inl ValueError)
   \<and> (max_iter < 1 \<longrightarrow>
        run_em_algorithm pdf data max_iter pi0 mu0 cov0 threshold = Inr []
        \<and> final_parameters pdf data max_iter pi0 mu0 cov0 threshold = Inr (pi0, mu0, cov0))"
  by (simp add: initialize_parameters_def Let_def run_em_algorithm_def final_parameters_def
      em_run_def initial_state_def)

text \<open>Component counts \<open>0\<close> and \<open>-1\<close>, and a fit with \<open>max_iter = 0\<close>.\<close>

theorem invalid_configurations_witness:
  "initialize_parameters (\<lambda>seed n m. replicate n (replicate m (Fin (1 / 2)))) 0 0
     = Inl ZeroDivisionError
   \<and> initialize_parameters (\<lambda>seed n m. replicate n (replicate m (Fin (1 / 2)))) (- 1) 0
     = Inl ValueError
   \<and> run_em_algorithm mvn_pdf2 (square_data 0) 0 [Fin 1] (square_mean 0) [eye 2] (Fin (1 / 10))
     = Inr []"
  using invalid_configurations[of 0 "\<lambda>seed n m. replicate n (replicate m (Fin (1 / 2)))" 0 0
          mvn_pdf2 "square_data 0" "[Fin 1]" "square_mean 0" "[eye 2]" "Fin (1 / 10)"]
        invalid_configurations[of "- 1" "\<lambda>seed n m. replicate n (replicate m (Fin (1 / 2)))" 0 0
          mvn_pdf2 "square_data 0" "[Fin 1]" "square_mean 0" "[eye 2]" "Fin (1 / 10)"]
  by simp

text \<open>
  C3 as the specification states it fails. A fit with \<open>max_iter = 0\<close> is not rejected: it
  returns the empty trajectory. Fits with threshold \<open>0\<close> and \<open>-1\<close> are not rejected either:
  they run their iteration and return its AIC.
\<close>

theorem invalid_configuration_accepted:
  "run_em_algorithm mvn_pdf2 (square_data 0) 0 [Fin 1] (square_mean 0) [eye 2] (Fin (1 / 10))
     = Inr []
   \<and> run_em_algorithm mvn_pdf2 (square_data 0) 1 [Fin 1] (square_mean 0) [eye 2] (Fin 0)
     = Inr [Fin square_aic]
   \<and> run_em_algorithm mvn_pdf2 (square_data 0) 1 [Fin 1] (square_mean 0) [eye 2] (Fin (- 1))
     = Inr [Fin square_aic]"
  by (simp add: run_em_algorithm_def square_single_run)
     (simp add: em_run_def initial_state_def)

text \<open>
  C4. In every iteration of the convergence loop, with \<open>previous_aic\<close> set to \<open>+inf\<close>
  before iteration 0 and \<open>delta = previous_aic - current_aic\<close>: when \<open>delta\<close> is below the
  threshold the no-improvement counter goes up by one; when \<open>delta\<close> is at least the
  threshold the counter is reset to 0 and the loop goes on; the loop stops early exactly
  when the counter reaches 3; an iteration that does not stop stores the current AIC as
  the previous one; and iteration 0 never stops early.
\<close>

theorem convergence_rule:
  assumes "reachable pdf data max_iter threshold (initial_state pi0 mu0 cov0) it s"
    and "em_iteration pdf data max_iter threshold it s = Inr f"
  shows "\<exists>current_aic.
           aic_list (state_of f) = aic_list s @ [current_aic]
         \<and> (previous_aic s - current_aic < threshold \<longrightarrow>
              no_improve_count (state_of f) = no_improve_count s + 1)
         \<and> (threshold \<le> previous_aic s - current_aic \<longrightarrow>
              no_improve_count (state_of f) = 0 \<and> \<not> is_Return f)
         \<and> (is_Return f \<longleftrightarrow> no_improve_count (state_of f) = 3)
         \<and> (\<not> is_Return f \<longrightarrow> previous_aic (state_of f) = current_aic)
         \<and> (it = 0 \<longrightarrow> previous_aic s = PInf \<and> \<not> is_Return f)"
proof -
  have inv: "loop_inv it s" using assms(1) by (rule reachable_inv)
  from assms(2) obtain c where
    a: "aic_list (state_of f) = aic_list s @ [c]"
    and lt: "previous_aic s - c < threshold \<Longrightarrow>
       no_improve_count (state_of f) = no_improve_count s + 1
       \<and> (is_Return f \<longleftrightarrow> 3 \<le> no_improve_count s + 1)"
    and ge: "\<not> previous_aic s - c < threshold \<Longrightarrow>
       no_improve_count (state_of f) = 0 \<and> \<not> is_Return f"
    and p: "\<not> is_Return f \<Longrightarrow> previous_aic (state_of f) = c"
    by (rule em_iteration_result) blast
  have two: "no_improve_count s \<le> 2" using inv by (simp add: loop_inv_def)
  have ret: "is_Return f \<longleftrightarrow> no_improve_count (state_of f) = 3"
    using lt ge two by (cases "previous_aic s - c < threshold") auto
  have first: "it = 0 \<longrightarrow> previous_aic s = PInf \<and> \<not> is_Return f"
    using inv loop_inv_step(5)[OF inv assms(2)] by (simp add: loop_inv_def)
  show ?thesis
    using a lt ge p ret first np_le_not_less[of threshold "previous_aic s - c"]
    by (intro exI[of _ c]) blast
qed

text \<open>
  The fit on the square reaches iteration 3 with the counter at 2; that iteration raises
  it to 3 and returns.
\<close>

theorem convergence_rule_witness:
  "\<exists>s f. reachable mvn_pdf2 (square_data 0) 200 (Fin (1 / 10))
            (initial_state [Fin 1] (square_mean 0) [eye 2]) 3 s
       \<and> em_iteration mvn_pdf2 (square_data 0) 200 (Fin (1 / 10)) 3 s = Inr f
       \<and> no_improve_count s = 2 \<and> no_improve_count (state_of f) = 3 \<and> is_Return f"
proof -
  obtain s where r: "reachable mvn_pdf2 (square_data 0) 200 (Fin (1 / 10))
          (initial_state [Fin 1] (square_mean 0) [eye 2]) 3 s"
    and p: "st_pi s = [Fin 1]" "st_mu s = square_mean 0" "st_cov s = [eye 2]"
    and a: "previous_aic s = Fin square_aic" and c: "no_improve_count s = 2"
    using square_reachable[of 3] by auto
  have "\<exists>f. em_iteration mvn_pdf2 (square_data 0) 200 (Fin (1 / 10)) 3 s = Inr f \<and> is_Return f"
    using a c by (simp add: square_iteration[OF p] minus_npfloat_def Let_def)
  then obtain f where it: "em_iteration mvn_pdf2 (square_data 0) 200 (Fin (1 / 10)) 3 s = Inr f"
    and ret: "is_Return f"
    by blast
  from convergence_rule[OF r it] ret have "no_improve_count (state_of f) = 3" by blast
  with r it c ret show ?thesis by blast
qed

text \<open>
  C5, as the code has it. The E-step divides the effective counts by their own sum
  \<open>m_c.sum()\<close>, not by \<open>N\<close>. Whenever the library density returns one value per point for
  every component: on a dataset of a single point the E-step raises; on every other
  dataset it returns the row-normalized responsibilities \<open>r\<close>, the effective counts
  \<open>m_c[k] = sum_n r[n,k]\<close> and the mixing weights \<open>m_c / m_c.sum()\<close>. In float64, for \<open>N\<close>
  points and \<open>K\<close> components with \<open>N + K\<close> at most \<open>2^50\<close> and finite non-negative weights
  whose rows have positive sums, the divisor \<open>m_c.sum()\<close> differs from \<open>N\<close> by at most
  \<open>N (7 (N + K) 2^-53 + 2 K 2^-1075)\<close>.
\<close>

theorem expectation_step_divides_by_count_sum:
  "(length mu = length pis \<longrightarrow> length cov = length pis \<longrightarrow> pis \<noteq> [] \<longrightarrow>
    (\<forall>k<length pis. pdf (mu ! k) (cov ! k) data = Inr (dens k)
                 \<and> length (dens k) = length data) \<longrightarrow>
      (length data = 1 \<longrightarrow> expectation_step pdf data mu cov pis = Inl AxisError)
    \<and> (length data \<noteq> 1 \<longrightarrow>
        (\<exists>r m_c.
            expectation_step pdf data mu cov pis =
              Inr (r, m_c, map (\<lambda>m. m / sum_list m_c) m_c)
          \<and> r = map (\<lambda>n. map (\<lambda>k. pis ! k * dens k ! n /
                         sum_list (map (\<lambda>j. pis ! j * dens j ! n) [0..<length pis]))
                       [0..<length pis]) [0..<length data]
          \<and> m_c = map (\<lambda>k. sum_list (map (\<lambda>n. r ! n ! k) [0..<length data]))
                      [0..<length pis])))
   \<and> (f64_expectation_step w fr fm fp \<longrightarrow> w \<noteq> [] \<longrightarrow>
      (\<forall>row\<in>set w. (\<forall>x\<in>set row. 0 \<le> x) \<and> 0 < sum_list row) \<longrightarrow>
      real (length w + length fm) * unit_roundoff \<le> 1 / 8 \<longrightarrow>
      f64_sum fm S \<longrightarrow>
      \<bar>S - real (length w)\<bar>
        \<le> real (length w) * (7 * real (length w + length fm) * unit_roundoff
                               + 2 * real (length fm) * tiny))"
proof (intro conjI impI)
  assume K: "length mu = length pis" "length cov = length pis" "pis \<noteq> []"
    and dens: "\<forall>k<length pis. pdf (mu ! k) (cov ! k) data = Inr (dens k)
                 \<and> length (dens k) = length data"
    and "length data = 1"
  then show "expectation_step pdf data mu cov pis = Inl AxisError"
    by (intro expectation_step_single[where dens = dens and pdf = pdf and data = data])
next
  assume K: "length mu = length pis" "length cov = length pis" "pis \<noteq> []"
    and dens: "\<forall>k<length pis. pdf (mu ! k) (cov ! k) data = Inr (dens k)
                 \<and> length (dens k) = length data"
    and N: "length data \<noteq> 1"
  define r where "r = map (\<lambda>n. map (\<lambda>k. pis ! k * dens k ! n /
                       sum_list (map (\<lambda>j. pis ! j * dens j ! n) [0..<length pis]))
                     [0..<length pis]) [0..<length data]"
  define m_c where "m_c = map (\<lambda>k. sum_list (map (\<lambda>n. r ! n ! k) [0..<length data]))
                    [0..<length pis]"
  have "expectation_step pdf data mu cov pis =
              Inr (r, m_c, map (\<lambda>m. m / sum_list m_c) m_c)"
    by (rule expectation_step_eq[where dens = dens and pdf = pdf and data = data,
          OF K dens N r_def m_c_def])
  with r_def m_c_def show "\<exists>r m_c.
            expectation_step pdf data mu cov pis =
              Inr (r, m_c, map (\<lambda>m. m / sum_list m_c) m_c)
          \<and> r = map (\<lambda>n. map (\<lambda>k. pis ! k * dens k ! n /
                         sum_list (map (\<lambda>j. pis ! j * dens j ! n) [0..<length pis]))
                       [0..<length pis]) [0..<length data]
          \<and> m_c = map (\<lambda>k. sum_list (map (\<lambda>n. r ! n ! k) [0..<length data]))
                      [0..<length pis]"
    by blast
next
  assume es: "f64_expectation_step w fr fm fp" and ne: "w \<noteq> []"
    and nn: "\<forall>row\<in>set w. (\<forall>x\<in>set row. 0 \<le> x) \<and> 0 < sum_list row"
    and small: "real (length w + length fm) * unit_roundoff \<le> 1 / 8"
    and S: "f64_sum fm S"
  from f64_expectation_step_bounds(3)[OF es ne nn small] S
  show "\<bar>S - real (length w)\<bar>
        \<le> real (length w) * (7 * real (length w + length fm) * unit_roundoff
                               + 2 * real (length fm) * tiny)"
    by blast
qed

text \<open>
  Two components of weights one quarter and three quarters with the same mean and
  covariance, on the four corners of the square: counts \<open>(1, 3)\<close>, divided by their sum.
  The single point at the origin: the E-step raises. And the float64 run on the weights
  \<open>(1, 1)\<close> and \<open>(1, 2)\<close>: the sum of the effective counts is \<open>2 - 2^-52\<close>, within the
  bound of \<open>N = 2\<close>.
\<close>

theorem expectation_step_divides_by_count_sum_witness:
  "expectation_step mvn_pdf2 (square_data 0) [[Fin 1, Fin 1], [Fin 1, Fin 1]] [eye 2, eye 2]
     [Fin (1 / 4), Fin (3 / 4)] =
   Inr ([[Fin (1 / 4), Fin (3 / 4)], [Fin (1 / 4), Fin (3 / 4)],
         [Fin (1 / 4), Fin (3 / 4)], [Fin (1 / 4), Fin (3 / 4)]],
        [Fin 1, Fin 3],
        map (\<lambda>m. m / sum_list [Fin 1, Fin 3]) [Fin 1, Fin 3])
   \<and> expectation_step mvn_pdf2 [[Fin 0, Fin 0]] [[Fin 0, Fin 0]] [eye 2] [Fin 1] = Inl AxisError
   \<and> f64_expectation_step [[1, 1], [1, 2]]
       [[1 / 2, 1 / 2], [6004799503160661 / 18014398509481984, 6004799503160661 / 9007199254740992]]
       [3752999689475413 / 4503599627370496, 2627099782632789 / 2251799813685248]
       [7505999378950827 / 18014398509481984, 5254199565265579 / 9007199254740992]
   \<and> f64_sum [3752999689475413 / 4503599627370496, 2627099782632789 / 2251799813685248]
       (9007199254740991 / 4503599627370496)
   \<and> \<bar>9007199254740991 / 4503599627370496 - real (length [[1, 1], [1, 2::real]])\<bar>
        \<le> real (length [[1, 1], [1, 2::real]]) * (7 * real (length [[1, 1], [1, 2::real]]
              + length [3752999689475413 / 4503599627370496,
                        2627099782632789 / 2251799813685248 :: real]) * unit_roundoff
            + 2 * real (length [3752999689475413 / 4503599627370496,
                        2627099782632789 / 2251799813685248 :: real]) * tiny)"
proof -
  let ?d = "\<lambda>k::nat. [Fin square_density, Fin square_density, Fin square_density,
                       Fin square_density]"
  let ?o = "\<lambda>k::nat. [Fin (1 / (2 * pi))]"
  let ?pis = "[Fin (1 / 4), Fin (3 / 4)]"
  let ?mu = "[[Fin 1, Fin 1], [Fin 1, Fin 1]]"
  let ?cov = "[eye 2, eye 2]"
  let ?w = "[[1, 1], [1, 2::real]]"
  let ?fr = "[[1 / 2, 1 / 2],
              [6004799503160661 / 18014398509481984, 6004799503160661 / 9007199254740992 :: real]]"
  let ?fm = "[3752999689475413 / 4503599627370496, 2627099782632789 / 2251799813685248 :: real]"
  let ?fp = "[7505999378950827 / 18014398509481984, 5254199565265579 / 9007199254740992 :: real]"
  let ?S = "9007199254740991 / 4503599627370496 :: real"
  have len: "length (square_data 0) = 4" by (simp add: square_data_def)
  have k1: "length ?mu = length ?pis" and k2: "length ?cov = length ?pis" and k3: "?pis \<noteq> []"
    by simp_all
  have d: "\<forall>k<length ?pis. mvn_pdf2 (?mu ! k) (?cov ! k) (square_data 0) = Inr (?d k)
          \<and> length (?d k) = length (square_data 0)"
    using square_pdf[of 0] by (simp add: len less_Suc_eq)
  have n4: "length (square_data 0) \<noteq> 1" by (simp add: len)
  note T = expectation_step_divides_by_count_sum[of ?mu ?pis ?cov mvn_pdf2 "square_data 0" ?d
      ?w ?fr ?fm ?fp ?S]
  from T[THEN conjunct1] k1 k2 k3 d n4 obtain r m_c where
    es: "expectation_step mvn_pdf2 (square_data 0) ?mu ?cov ?pis =
           Inr (r, m_c, map (\<lambda>m. m / sum_list m_c) m_c)"
    and r: "r = map (\<lambda>n. map (\<lambda>k. ?pis ! k * ?d k ! n /
                       sum_list (map (\<lambda>j. ?pis ! j * ?d j ! n) [0..<length ?pis]))
                     [0..<length ?pis]) [0..<length (square_data 0)]"
    and m: "m_c = map (\<lambda>k. sum_list (map (\<lambda>n. r ! n ! k) [0..<length (square_data 0)]))
                    [0..<length ?pis]"
    by blast
  have r': "r = [[Fin (1 / 4), Fin (3 / 4)], [Fin (1 / 4), Fin (3 / 4)],
                 [Fin (1 / 4), Fin (3 / 4)], [Fin (1 / 4), Fin (3 / 4)]]"
    using square_density_pos unfolding r len
    by (simp add: upt_rec zero_npfloat_def field_simps)
  have m': "m_c = [Fin 1, Fin 3]"
    unfolding m r' len by (simp add: upt_rec zero_npfloat_def)
  have a: "expectation_step mvn_pdf2 (square_data 0) ?mu ?cov ?pis =
             Inr ([[Fin (1 / 4), Fin (3 / 4)], [Fin (1 / 4), Fin (3 / 4)],
                   [Fin (1 / 4), Fin (3 / 4)], [Fin (1 / 4), Fin (3 / 4)]],
                  [Fin 1, Fin 3], map (\<lambda>m. m / sum_list [Fin 1, Fin 3]) [Fin 1, Fin 3])"
    using es unfolding r' m' .
  have o: "\<forall>k<length [Fin 1::npfloat].
       mvn_pdf2 ([[Fin 0, Fin 0]] ! k) ([eye 2] ! k) [[Fin 0, Fin 0]] = Inr (?o k)
       \<and> length (?o k) = length [[Fin 0, Fin 0::npfloat]]"
    by (simp add: origin_pdf)
  have b: "expectation_step mvn_pdf2 [[Fin 0, Fin 0]] [[Fin 0, Fin 0]] [eye 2] [Fin 1]
             = Inl AxisError"
    using expectation_step_divides_by_count_sum[of "[[Fin 0, Fin 0]]" "[Fin 1]" "[eye 2]"
        mvn_pdf2 "[[Fin 0, Fin 0]]" ?o ?w ?fr ?fm ?fp ?S, THEN conjunct1] o
    by simp
  have h1: "f64_expectation_step ?w ?fr ?fm ?fp" by (rule f64_example_run(1))
  have h2: "?w \<noteq> []" by simp
  have h3: "\<forall>row\<in>set ?w. (\<forall>x\<in>set row. 0 \<le> x) \<and> 0 < sum_list row" by simp
  have h4: "real (length ?w + length ?fm) * unit_roundoff \<le> 1 / 8"
    by (simp add: unit_roundoff_def)
  have h5: "f64_sum ?fm ?S" by (rule f64_example_run(2))
  have c: "\<bar>?S - real (length ?w)\<bar>
        \<le> real (length ?w) * (7 * real (length ?w + length ?fm) * unit_roundoff
                               + 2 * real (length ?fm) * tiny)"
    using T[THEN conjunct2] h1 h2 h3 h4 h5 by (elim impE) assumption+
  from a b h1 h5 c show ?thesis by (intro conjI)
qed

text \<open>
  C5 as the specification states it fails. A dataset of the single point \<open>(0, 0)\<close>, one
  component at the origin with identity covariance and weight 1: the weight of the point
  is \<open>1 / (2 pi)\<close>, not zero, and the E-step raises; it returns no mixing-weight vector.
  And in float64 the divisor is not \<open>N\<close>: for two points of weights \<open>(1, 1)\<close> and \<open>(1, 2)\<close>
  the effective counts are \<open>0.8333333333333333\<close> and \<open>1.1666666666666665\<close>, their sum is
  \<open>1.9999999999999998\<close>, and the first mixing weight \<open>0.4166666666666667\<close> is not a
  float64 value of \<open>m_c[0] / 2\<close>.
\<close>

theorem mixing_weights_not_counts_over_N:
  "weighted_pdfs mvn_pdf2 [[Fin 0, Fin 0]] [[Fin 0, Fin 0]] [eye 2] [Fin 1] =
     Inr [[Fin (1 / (2 * pi))]]
   \<and> sum_list [Fin (1 / (2 * pi))] \<noteq> Fin 0
   \<and> expectation_step mvn_pdf2 [[Fin 0, Fin 0]] [[Fin 0, Fin 0]] [eye 2] [Fin 1] = Inl AxisError
   \<and> f64_expectation_step [[1, 1], [1, 2]]
       [[1 / 2, 1 / 2], [6004799503160661 / 18014398509481984, 6004799503160661 / 9007199254740992]]
       [3752999689475413 / 4503599627370496, 2627099782632789 / 2251799813685248]
       [7505999378950827 / 18014398509481984, 5254199565265579 / 9007199254740992]
   \<and> f64_sum [3752999689475413 / 4503599627370496, 2627099782632789 / 2251799813685248]
       (9007199254740991 / 4503599627370496)
   \<and> 9007199254740991 / 4503599627370496 \<noteq> (2::real)
   \<and> \<not> rounds ((3752999689475413 / 4503599627370496) / 2)
             (7505999378950827 / 18014398509481984)"
proof -
  have "\<not> rounds ((3752999689475413 / 4503599627370496) / 2)
             (7505999378950827 / 18014398509481984)"
  proof -
    have "(2::real) ^ 54 < 2 ^ 1075" by (rule power_strict_increasing) simp_all
    then have "tiny < 1 / 2 ^ 54" unfolding tiny_def
      by (intro divide_strict_left_mono) simp_all
    then have "tiny < 1 / 18014398509481984" by simp
    then show ?thesis
      by (simp add: rounds_def unit_roundoff_def max_def)
  qed
  moreover have "sum_list [Fin (1 / (2 * pi))] \<noteq> Fin 0"
    by (simp add: zero_npfloat_def)
  ultimately show ?thesis
    by (simp add: origin_weighted origin_expectation f64_example_run)
qed

text \<open>
  C6. For every component \<open>k\<close> and coordinates \<open>a\<close>, \<open>b\<close>, the M-step returns the weighted
  mean \<open>mu'[k] = (sum_n r[n,k] * x_n) / m_c[k]\<close> and the weighted covariance
  \<open>Sigma'[k] = (sum_n r[n,k] * (x_n - mu'[k]) (x_n - mu'[k])^T) / m_c[k]\<close>, the covariance
  being built from the new mean \<open>mu'[k]\<close> for every point. The equations are those of the
  array arithmetic, so they hold for a zero count too, where both sides are the infinity
  or NaN of the division.
\<close>

theorem maximization_step_weighted_moments:
  assumes "length r = length data" and "\<forall>x\<in>set data. length x = ncols data"
    and "k < length m_c" and "a < ncols data" and "b < ncols data"
    and "maximization_step data r m_c = (mu', cov')"
  shows "length mu' = length m_c \<and> length cov' = length m_c
       \<and> mu' ! k ! a =
           sum_list (map (\<lambda>n. r ! n ! k * data ! n ! a) [0..<length data]) / m_c ! k
       \<and> cov' ! k ! a ! b =
           sum_list (map (\<lambda>n. r ! n ! k *
                      ((data ! n ! a - mu' ! k ! a) * (data ! n ! b - mu' ! k ! b)))
                    [0..<length data]) / m_c ! k"
proof -
  from assms(6) have "length mu' = length m_c" "length cov' = length m_c"
    by (auto simp: maximization_step_def Let_def)
  with maximization_step_entries[OF assms] show ?thesis by simp
qed

text \<open>The M-step on the square with all responsibilities one: mean \<open>(1, 1)\<close>, identity covariance.\<close>

theorem maximization_step_weighted_moments_witness:
  "maximization_step (square_data 0) [[Fin 1], [Fin 1], [Fin 1], [Fin 1]] [Fin 4]
     = ([[Fin 1, Fin 1]], [eye 2])
   \<and> [[Fin 1, Fin 1]] ! 0 ! 0 =
       sum_list (map (\<lambda>n. [[Fin 1], [Fin 1], [Fin 1], [Fin 1]] ! n ! 0 * square_data 0 ! n ! 0)
                  [0..<length (square_data 0)]) / [Fin 4] ! 0
   \<and> [eye 2] ! 0 ! 0 ! 1 =
       sum_list (map (\<lambda>n. [[Fin 1], [Fin 1], [Fin 1], [Fin 1]] ! n ! 0 *
                  ((square_data 0 ! n ! 0 - [[Fin 1, Fin 1]] ! 0 ! 0)
                   * (square_data 0 ! n ! 1 - [[Fin 1, Fin 1]] ! 0 ! 1)))
                [0..<length (square_data 0)]) / [Fin 4] ! 0"
proof -
  let ?r = "[[Fin 1], [Fin 1], [Fin 1], [Fin 1]]"
  have ms: "maximization_step (square_data 0) ?r [Fin 4] = ([[Fin 1, Fin 1]], [eye 2])"
    using square_maximization[of 0] by (simp add: square_mean_def)
  have nc: "ncols (square_data 0) = 2" by (simp add: ncols_def square_data_def)
  have h1: "length ?r = length (square_data 0)" by (simp add: square_data_def)
  have h2: "\<forall>x\<in>set (square_data 0). length x = ncols (square_data 0)"
    unfolding nc by (simp add: square_data_def)
  have h3: "0 < length [Fin 4::npfloat]" by simp
  have h4: "0 < ncols (square_data 0)" and h5: "1 < ncols (square_data 0)"
    by (simp_all add: nc)
  from maximization_step_weighted_moments[OF h1 h2 h3 h4 h5 ms] ms
  show ?thesis by blast
qed

text \<open>
  C7. With \<open>K\<close> components in \<open>D\<close> dimensions (\<open>K = len(mu) = len(pi) \<ge> 1\<close>,
  \<open>D = len(mu[0])\<close>) and a library density that returns one value per point for every
  component, the scorer returns \<open>2 k - 2 ln L\<close> with \<open>k = K (D + D (D + 1) / 2 + 1)\<close> and
  \<open>ln L = sum_n log (sum_k pi_k * density(x_n; mu_k, Sigma_k))\<close>.
\<close>

theorem compute_aic_formula:
  assumes "length mu = length pis" and "length cov = length pis" and "pis \<noteq> []"
    and "\<forall>k<length pis. pdf (mu ! k) (cov ! k) data = Inr (dens k)
                 \<and> length (dens k) = length data"
  shows "compute_aic pdf data mu cov pis =
     Inr (Fin 2 * Fin (real (length mu) *
            (real (length (mu ! 0)) + real (length (mu ! 0)) * (real (length (mu ! 0)) + 1) / 2
             + 1))
          - Fin 2 * sum_list (map (\<lambda>n. np_log (sum_list
                        (map (\<lambda>k. pis ! k * dens k ! n) [0..<length pis])))
                      [0..<length data]))"
  using assms by (rule compute_aic_eq)

text \<open>
  Two equal components of weights one quarter and three quarters on the square: twelve
  free parameters and four points of mixture density \<open>square_density\<close>.
\<close>

theorem compute_aic_formula_witness:
  "compute_aic mvn_pdf2 (square_data 0) [[Fin 1, Fin 1], [Fin 1, Fin 1]] [eye 2, eye 2]
     [Fin (1 / 4), Fin (3 / 4)] =
   Inr (Fin 2 * Fin (2 * (2 + 2 * (2 + 1) / 2 + 1)) - Fin 2 * Fin (4 * ln square_density))"
proof -
  let ?d = "\<lambda>k::nat. [Fin square_density, Fin square_density, Fin square_density,
                       Fin square_density]"
  let ?pis = "[Fin (1 / 4), Fin (3 / 4)]"
  let ?mu = "[[Fin 1, Fin 1], [Fin 1, Fin 1]]"
  let ?cov = "[eye 2, eye 2]"
  have len: "length (square_data 0) = 4" by (simp add: square_data_def)
  have d: "\<forall>k<length ?pis. mvn_pdf2 (?mu ! k) (?cov ! k) (square_data 0) = Inr (?d k)
          \<and> length (?d k) = length (square_data 0)"
    using square_pdf[of 0] by (simp add: len less_Suc_eq)
  have h: "square_density / 4 + 3 * square_density / 4 = square_density" by simp
  have lik: "sum_list (map (\<lambda>n. np_log (sum_list (map (\<lambda>k. ?pis ! k * ?d k ! n)
                 [0..<length ?pis]))) [0..<length (square_data 0)])
             = Fin (4 * ln square_density)"
    unfolding len using square_density_pos
    by (simp add: upt_rec zero_npfloat_def h)
  from compute_aic_formula[of ?mu ?pis ?cov mvn_pdf2 "square_data 0" ?d, OF _ _ _ d]
  show ?thesis unfolding lik by simp
qed

text \<open>
  C8, as the code has it. The mixing weights sum to one within a tolerance, and only while
  no point loses all its weight. The initializer's weights are \<open>1 / K\<close>, \<open>K\<close> times; as
  float64 values their sum is within \<open>2^-53 + K 2^-1075\<close> of one. The weights an iteration
  leaves in the state are those its E-step returned. Computed in float64 from finite
  non-negative weights whose rows have positive sums, for \<open>N\<close> points and \<open>K\<close> components
  with \<open>N + K\<close> at most \<open>2^50\<close>, they sum to one within \<open>2 K 2^-53 + K 2^-1075\<close>. When
  the weights of some point are all exactly zero (and the dataset is not a single point),
  every mixing weight the E-step returns is NaN, and so is their sum.
\<close>

theorem mixing_weights_sum_within_tolerance:
  "(initialize_parameters rand num_components seed = Inr (p0, m0, c0) \<longrightarrow>
      p0 = replicate (nat num_components) (Fin (1 / real_of_int num_components))
      \<and> (f64_uniform_weights (nat num_components) ps0 \<longrightarrow>
           \<bar>sum_list ps0 - 1\<bar> \<le> unit_roundoff + real (nat num_components) * tiny))
   \<and> (em_iteration pdf data max_iter threshold it s = Inr f \<longrightarrow>
      (\<exists>r m_c. expectation_step pdf data (st_mu s) (st_cov s) (st_pi s) =
                 Inr (r, m_c, st_pi (state_of f))))
   \<and> (f64_expectation_step w fr fm fp \<longrightarrow> w \<noteq> [] \<longrightarrow>
      (\<forall>row\<in>set w. (\<forall>x\<in>set row. 0 \<le> x) \<and> 0 < sum_list row) \<longrightarrow>
      real (length w + length fm) * unit_roundoff \<le> 1 / 8 \<longrightarrow>
      \<bar>sum_list fp - 1\<bar> \<le> 2 * real (length fm) * unit_roundoff + real (length fm) * tiny)
   \<and> (length mu = length pis \<longrightarrow> length cov = length pis \<longrightarrow> pis \<noteq> [] \<longrightarrow>
      (\<forall>k<length pis. pdf (mu ! k) (cov ! k) data = Inr (dens k)
                 \<and> length (dens k) = length data) \<longrightarrow>
      length data \<noteq> 1 \<longrightarrow> n < length data \<longrightarrow>
      (\<forall>k<length pis. pis ! k * dens k ! n = Fin 0) \<longrightarrow>
      (\<exists>r m_c. expectation_step pdf data mu cov pis =
                 Inr (r, m_c, replicate (length pis) NaN))
      \<and> sum_list (replicate (length pis) NaN) = NaN)"
proof (intro conjI impI)
  assume init: "initialize_parameters rand num_components seed = Inr (p0, m0, c0)"
  show "p0 = replicate (nat num_components) (Fin (1 / real_of_int num_components))"
    by (rule initialize_parameters_weights(2)[OF init])
next
  assume init: "initialize_parameters rand num_components seed = Inr (p0, m0, c0)"
    and u: "f64_uniform_weights (nat num_components) ps0"
  have "0 < nat num_components"
    using initialize_parameters_weights(1)[OF init] by simp
  then show "\<bar>sum_list ps0 - 1\<bar> \<le> unit_roundoff + real (nat num_components) * tiny"
    using u by (rule f64_uniform_weights_bound)
next
  assume "em_iteration pdf data max_iter threshold it s = Inr f"
  then obtain r m_c pis' where
    "expectation_step pdf data (st_mu s) (st_cov s) (st_pi s) = Inr (r, m_c, pis')"
    "st_pi (state_of f) = pis'"
    by (rule em_iteration_result) blast
  then show "\<exists>r m_c. expectation_step pdf data (st_mu s) (st_cov s) (st_pi s) =
                 Inr (r, m_c, st_pi (state_of f))"
    by blast
next
  assume es: "f64_expectation_step w fr fm fp" and ne: "w \<noteq> []"
    and nn: "\<forall>row\<in>set w. (\<forall>x\<in>set row. 0 \<le> x) \<and> 0 < sum_list row"
    and small: "real (length w + length fm) * unit_roundoff \<le> 1 / 8"
  show "\<bar>sum_list fp - 1\<bar> \<le> 2 * real (length fm) * unit_roundoff + real (length fm) * tiny"
    by (rule f64_expectation_step_bounds(2)[OF es ne nn small])
next
  assume K: "length mu = length pis" "length cov = length pis" "pis \<noteq> []"
    and dens: "\<forall>k<length pis. pdf (mu ! k) (cov ! k) data = Inr (dens k)
                 \<and> length (dens k) = length data"
    and N: "length data \<noteq> 1" and n: "n < length data"
    and z: "\<forall>k<length pis. pis ! k * dens k ! n = Fin 0"
  show "\<exists>r m_c. expectation_step pdf data mu cov pis =
                 Inr (r, m_c, replicate (length pis) NaN)"
    by (rule expectation_step_nan_weights[where dens = dens and pdf = pdf and data = data,
          OF K dens N n z])
next
  assume "pis \<noteq> []"
  then show "sum_list (replicate (length pis) NaN) = NaN"
    by (intro sum_list_NaN) simp
qed

text \<open>
  Three components from the initializer (with a generator that always draws one half):
  the float64 value of \<open>1 / 3\<close> three times sums to \<open>1 - 2^-54\<close>. Iteration 0 of the fit
  on the square. The float64 run on the weights \<open>(1, 1)\<close> and \<open>(1, 2)\<close>: the mixing
  weights sum to \<open>1 + 2^-54\<close>. And two equal components at the origin on the far
  dataset, whose second point has weight zero under both.
\<close>

theorem mixing_weights_sum_within_tolerance_witness:
  "initialize_parameters (\<lambda>seed n m. replicate n (replicate m (Fin (1 / 2)))) 3 0 =
     Inr ([Fin (1 / 3), Fin (1 / 3), Fin (1 / 3)],
          [[Fin 0, Fin 0], [Fin 0, Fin 0], [Fin 0, Fin 0]],
          [eye 2, eye 2, eye 2])
   \<and> f64_uniform_weights 3 [6004799503160661 / 18014398509481984,
        6004799503160661 / 18014398509481984, 6004799503160661 / 18014398509481984]
   \<and> sum_list [6004799503160661 / 18014398509481984,
        6004799503160661 / 18014398509481984, 6004799503160661 / 18014398509481984 :: real]
       = 1 - 1 / 2 ^ 54
   \<and> \<bar>sum_list [6004799503160661 / 18014398509481984,
        6004799503160661 / 18014398509481984, 6004799503160661 / 18014398509481984 :: real] - 1\<bar>
       \<le> unit_roundoff + real (nat 3) * tiny
   \<and> (\<exists>f r m_c. em_iteration mvn_pdf2 (square_data 0) 200 (Fin (1 / 10)) 0
              (initial_state [Fin 1] (square_mean 0) [eye 2]) = Inr f
          \<and> expectation_step mvn_pdf2 (square_data 0) (square_mean 0) [eye 2] [Fin 1] =
              Inr (r, m_c, st_pi (state_of f)))
   \<and> f64_expectation_step [[1, 1], [1, 2]]
       [[1 / 2, 1 / 2], [6004799503160661 / 18014398509481984, 6004799503160661 / 9007199254740992]]
       [3752999689475413 / 4503599627370496, 2627099782632789 / 2251799813685248]
       [7505999378950827 / 18014398509481984, 5254199565265579 / 9007199254740992]
   \<and> sum_list [7505999378950827 / 18014398509481984, 5254199565265579 / 9007199254740992 :: real]
       = 1 + 1 / 2 ^ 54
   \<and> \<bar>sum_list [7505999378950827 / 18014398509481984,
                 5254199565265579 / 9007199254740992 :: real] - 1\<bar>
       \<le> 2 * real (length [3752999689475413 / 4503599627370496,
                            2627099782632789 / 2251799813685248 :: real]) * unit_roundoff
         + real (length [3752999689475413 / 4503599627370496,
                            2627099782632789 / 2251799813685248 :: real]) * tiny
   \<and> mvn_pdf2 [Fin 0, Fin 0] (eye 2) far_data = Inr [Fin (1 / (2 * pi)), Fin 0]
   \<and> (\<exists>r m_c. expectation_step mvn_pdf2 far_data [[Fin 0, Fin 0], [Fin 0, Fin 0]]
                  [eye 2, eye 2] [Fin (1 / 2), Fin (1 / 2)] = Inr (r, m_c, [NaN, NaN]))
   \<and> sum_list [NaN, NaN] = NaN"
proof -
  let ?rand = "\<lambda>(seed::int) n m. replicate n (replicate m (Fin (1 / 2)))"
  let ?p = "[Fin (1 / 3), Fin (1 / 3), Fin (1 / 3)]"
  let ?m = "[[Fin 0, Fin 0], [Fin 0, Fin 0], [Fin 0, Fin 0]]"
  let ?c = "[eye 2, eye 2, eye 2]"
  let ?ps0 = "[6004799503160661 / 18014398509481984,
        6004799503160661 / 18014398509481984, 6004799503160661 / 18014398509481984 :: real]"
  let ?s = "initial_state [Fin 1] (square_mean 0) [eye 2]"
  let ?w = "[[1, 1], [1, 2::real]]"
  let ?fr = "[[1 / 2, 1 / 2],
              [6004799503160661 / 18014398509481984, 6004799503160661 / 9007199254740992 :: real]]"
  let ?fm = "[3752999689475413 / 4503599627370496, 2627099782632789 / 2251799813685248 :: real]"
  let ?fp = "[7505999378950827 / 18014398509481984, 5254199565265579 / 9007199254740992 :: real]"
  let ?d = "\<lambda>k::nat. [Fin (1 / (2 * pi)), Fin 0]"
  have r3: "replicate 3 x = [x, x, x]" for x :: 'a by (simp add: numeral_3_eq_3)
  have init: "initialize_parameters ?rand 3 0 = Inr (?p, ?m, ?c)"
    by (simp add: initialize_parameters_def minus_npfloat_def Let_def replicate_2 r3 upt_rec)
  have "\<exists>f. em_iteration mvn_pdf2 (square_data 0) 200 (Fin (1 / 10)) 0 ?s = Inr f"
    by (simp add: initial_state_def square_iteration minus_npfloat_def Let_def)
  then obtain f where it: "em_iteration mvn_pdf2 (square_data 0) 200 (Fin (1 / 10)) 0 ?s = Inr f"
    by blast
  have sel: "st_pi ?s = [Fin 1]" "st_mu ?s = square_mean 0" "st_cov ?s = [eye 2]"
    by (simp_all add: initial_state_def)
  have len: "length far_data = Suc (Suc 0)" by (simp add: far_data_def)
  note T = mixing_weights_sum_within_tolerance[where rand = ?rand and num_components = 3
      and seed = 0 and ?p0.0 = ?p and ?m0.0 = ?m and ?c0.0 = ?c and ?ps0.0 = ?ps0
      and pdf = mvn_pdf2 and data = "square_data 0" and max_iter = 200
      and threshold = "Fin (1 / 10)" and it = 0 and s = ?s and f = f
      and w = ?w and fr = ?fr and fm = ?fm and fp = ?fp]
  note T' = mixing_weights_sum_within_tolerance[where pdf = mvn_pdf2 and data = far_data
      and mu = "[[Fin 0, Fin 0], [Fin 0, Fin 0]]" and pis = "[Fin (1 / 2), Fin (1 / 2)]"
      and cov = "[eye 2, eye 2]" and dens = ?d and n = 1]
  have u: "f64_uniform_weights (nat 3) ?ps0"
    using f64_example_uniform by simp
  have a: "\<bar>sum_list ?ps0 - 1\<bar> \<le> unit_roundoff + real (nat 3) * tiny"
    using T[THEN conjunct1] init u by (elim impE conjE) assumption+
  have "\<exists>r m_c. expectation_step mvn_pdf2 (square_data 0) (st_mu ?s) (st_cov ?s) (st_pi ?s) =
                 Inr (r, m_c, st_pi (state_of f))"
    using T[THEN conjunct2, THEN conjunct1] it by (elim impE) assumption+
  then have b: "\<exists>f r m_c. em_iteration mvn_pdf2 (square_data 0) 200 (Fin (1 / 10)) 0 ?s = Inr f
          \<and> expectation_step mvn_pdf2 (square_data 0) (square_mean 0) [eye 2] [Fin 1] =
              Inr (r, m_c, st_pi (state_of f))"
    using it unfolding sel by blast
  have h1: "f64_expectation_step ?w ?fr ?fm ?fp" by (rule f64_example_run(1))
  have h2: "?w \<noteq> []" by simp
  have h3: "\<forall>row\<in>set ?w. (\<forall>x\<in>set row. 0 \<le> x) \<and> 0 < sum_list row" by simp
  have h4: "real (length ?w + length ?fm) * unit_roundoff \<le> 1 / 8"
    by (simp add: unit_roundoff_def)
  have c: "\<bar>sum_list ?fp - 1\<bar>
       \<le> 2 * real (length ?fm) * unit_roundoff + real (length ?fm) * tiny"
    using T[THEN conjunct2, THEN conjunct2, THEN conjunct1] h1 h2 h3 h4
    by (elim impE) assumption+
  let ?pis = "[Fin (1 / 2), Fin (1 / 2)]"
  let ?mu = "[[Fin 0, Fin 0], [Fin 0, Fin 0]]"
  let ?cov = "[eye 2, eye 2]"
  have g1: "length ?mu = length ?pis" and g2: "length ?cov = length ?pis" and g3: "?pis \<noteq> []"
    by simp_all
  have g4: "\<forall>k<length ?pis.
       mvn_pdf2 (?mu ! k) (?cov ! k) far_data = Inr (?d k)
       \<and> length (?d k) = length far_data"
    by (simp add: far_pdf len less_Suc_eq)
  have g5: "length far_data \<noteq> 1" and g6: "1 < length far_data" by (simp_all add: len)
  have g7: "\<forall>k<length ?pis. ?pis ! k * ?d k ! 1 = Fin 0"
    by (simp add: less_Suc_eq)
  have "(\<exists>r m_c. expectation_step mvn_pdf2 far_data ?mu ?cov ?pis =
                Inr (r, m_c, replicate (length ?pis) NaN))
      \<and> sum_list (replicate (length ?pis) NaN) = NaN"
    using T'[THEN conjunct2, THEN conjunct2, THEN conjunct2] g1 g2 g3 g4 g5 g6 g7
    by (elim impE) assumption+
  then have d: "\<exists>r m_c. expectation_step mvn_pdf2 far_data ?mu ?cov ?pis =
                Inr (r, m_c, [NaN, NaN])"
    and d': "sum_list [NaN, NaN] = NaN"
    by simp_all
  have e1: "sum_list ?ps0 = 1 - 1 / 2 ^ 54" by simp
  have e2: "sum_list ?fp = 1 + 1 / 2 ^ 54" by simp
  have u3: "f64_uniform_weights 3 ?ps0" by (rule f64_example_uniform)
  from init u3 e1 a b h1 e2 c far_pdf d d' show ?thesis by (intro conjI)
qed

text \<open>
  C8 as the specification states it fails. One component as the initializer builds it
  (weight 1, mean at the origin, identity covariance) on a dataset with a point at
  \<open>(100, 100)\<close>: the density of that point underflows to zero, its row is \<open>0 / 0\<close>, and
  the mixing weight the E-step of iteration 0 returns is NaN. The means and covariances
  computed from it are NaN too, the library rejects them in the scorer, and the fit ends
  with that error.
\<close>

theorem mixing_weights_nan_after_underflow:
  "initialize_parameters (\<lambda>seed n m. replicate n (replicate m (Fin (1 / 2)))) 1 0 =
     Inr ([Fin 1], [[Fin 0, Fin 0]], [eye 2])
   \<and> expectation_step mvn_pdf2 far_data [[Fin 0, Fin 0]] [eye 2] [Fin 1] =
       Inr ([[Fin 1], [NaN]], [NaN], [NaN])
   \<and> sum_list [NaN] = NaN
   \<and> run_em_algorithm mvn_pdf2 far_data 200 [Fin 1] [[Fin 0, Fin 0]] [eye 2] (Fin (1 / 10))
       = Inl ValueError"
proof -
  have "[0..<200::nat] = 0 # [1..<200]" by (simp add: upt_rec)
  then have "run_em_algorithm mvn_pdf2 far_data 200 [Fin 1] [[Fin 0, Fin 0]] [eye 2] (Fin (1 / 10))
       = Inl ValueError"
    by (simp add: run_em_algorithm_def em_run_def far_iteration)
  then show ?thesis
    by (simp add: far_expectation)
       (simp add: initialize_parameters_def minus_npfloat_def Let_def replicate_2)
qed

text \<open>
  C9. Whenever the early convergence stop fires (the last thing printed is the early
  termination message), the call returns its trajectory, the trajectory has at least four
  entries and at least four iterations have been executed.
\<close>

theorem early_stop_after_four_iterations:
  assumes "em_run pdf data max_iter pi0 mu0 cov0 threshold = Inr s"
    and "last (printed s) = Terminating_early threshold"
  shows "run_em_algorithm pdf data max_iter pi0 mu0 cov0 threshold = Inr (aic_list s)
         \<and> 4 \<le> length (aic_list s) \<and> 4 \<le> executed s"
  using em_run_result[OF assms(1)] assms by (simp add: run_em_algorithm_def)

text \<open>
  The fit on the square with the settings of \<open>main\<close> (200 iterations at most, threshold
  one tenth) stops early with exactly four entries.
\<close>

theorem early_stop_after_four_iterations_witness:
  "\<exists>s. em_run mvn_pdf2 (square_data 0) 200 [Fin 1] (square_mean 0) [eye 2] (Fin (1 / 10)) = Inr s
       \<and> last (printed s) = Terminating_early (Fin (1 / 10))
       \<and> run_em_algorithm mvn_pdf2 (square_data 0) 200 [Fin 1] (square_mean 0) [eye 2]
             (Fin (1 / 10)) = Inr (aic_list s)
       \<and> length (aic_list s) = 4 \<and> 4 \<le> executed s"
proof -
  from square_run obtain s where
    run: "em_run mvn_pdf2 (square_data 0) 200 [Fin 1] (square_mean 0) [eye 2] (Fin (1 / 10)) = Inr s"
    and early: "last (printed s) = Terminating_early (Fin (1 / 10))"
    and four: "length (aic_list s) = 4"
    by blast
  from early_stop_after_four_iterations[OF run early] run early four show ?thesis by blast
qed

text \<open>
  C10. The M-step takes the dataset, the responsibilities and the effective counts and
  returns means and covariances only. In every iteration that completes, the mixing
  weights left in the state are the ones the E-step returned, the means and covariances
  are what the M-step returned from the E-step's responsibilities and counts, and the
  iteration is scored with exactly these.
\<close>

theorem mixing_weights_set_by_expectation_step:
  assumes "em_iteration pdf data max_iter threshold it s = Inr f"
  shows "\<exists>r m_c pis'.
           expectation_step pdf data (st_mu s) (st_cov s) (st_pi s) = Inr (r, m_c, pis')
         \<and> maximization_step data r m_c = (st_mu (state_of f), st_cov (state_of f))
         \<and> st_pi (state_of f) = pis'
         \<and> compute_aic pdf data (st_mu (state_of f)) (st_cov (state_of f)) pis'
             = Inr (last (aic_list (state_of f)))"
  using assms by (elim em_iteration_result) auto

text \<open>Iteration 0 of the fit on the square keeps the weight the E-step computed.\<close>

theorem mixing_weights_set_by_expectation_step_witness:
  "\<exists>f. em_iteration mvn_pdf2 (square_data 0) 200 (Fin (1 / 10)) 0
          (initial_state [Fin 1] (square_mean 0) [eye 2]) = Inr f
       \<and> expectation_step mvn_pdf2 (square_data 0) (square_mean 0) [eye 2] [Fin 1]
            = Inr ([[Fin 1], [Fin 1], [Fin 1], [Fin 1]], [Fin 4], [Fin 1])
       \<and> st_pi (state_of f) = [Fin 1]"
proof -
  have "\<exists>f. em_iteration mvn_pdf2 (square_data 0) 200 (Fin (1 / 10)) 0
          (initial_state [Fin 1] (square_mean 0) [eye 2]) = Inr f"
    by (simp add: initial_state_def square_iteration minus_npfloat_def Let_def)
  then obtain f where it: "em_iteration mvn_pdf2 (square_data 0) 200 (Fin (1 / 10)) 0
          (initial_state [Fin 1] (square_mean 0) [eye 2]) = Inr f"
    by blast
  from mixing_weights_set_by_expectation_step[OF it] it show ?thesis
    by (auto simp: initial_state_def square_expectation)
qed

end
